theory Spec2Isabelle
  imports Complex_Main "HOL-Library.Multiset"
begin

section \<open>Points, scalar primitives and dimension arithmetic\<close>

text \<open>
  A key of kdtools is a tuple of fixed arity \<open>D = ndim<KeyType>::value\<close> whose
  coordinates are read with \<open>get<I>\<close>.  The embedding takes the coordinates to be
  real numbers (the \<open>double\<close> of \<open>scalar_diff\<close>, without rounding and without
  NaN), a key to be the list of its coordinates, and the arity to be an explicit
  argument \<open>D\<close>; a well-formed key has length \<open>D\<close> and \<open>get<I>(p)\<close> is \<open>p ! I\<close>.
  Template arguments (\<open>I\<close>, \<open>K\<close>) become ordinary arguments.
\<close>

type_synonym point = "real list"

definition scalar_diff :: "real \<Rightarrow> real \<Rightarrow> real" where
  "scalar_diff lhs rhs = lhs - rhs"

definition scalar_dist :: "real \<Rightarrow> real \<Rightarrow> real" where
  "scalar_dist lhs rhs = \<bar>scalar_diff lhs rhs\<bar>"

text \<open>
  Iterators into the array are indices; \<open>distance(first, last)\<close> is \<open>lst - first\<close>
  (the source's \<open>last\<close> is written \<open>lst\<close>, since \<open>last\<close> is a list function of HOL).
\<close>

definition middle_of :: "nat \<Rightarrow> nat \<Rightarrow> nat" where
  "middle_of first lst = first + (lst - first) div 2"

definition less_nth :: "nat \<Rightarrow> point \<Rightarrow> point \<Rightarrow> bool" where
  "less_nth I lhs rhs = (lhs ! I < rhs ! I)"

definition dist_nth :: "nat \<Rightarrow> point \<Rightarrow> point \<Rightarrow> real" where
  "dist_nth I lhs rhs = scalar_dist (lhs ! I) (rhs ! I)"

definition diff_nth :: "nat \<Rightarrow> point \<Rightarrow> point \<Rightarrow> real" where
  "diff_nth I lhs rhs = scalar_diff (lhs ! I) (rhs ! I)"

definition incr_wrap :: "nat \<Rightarrow> nat \<Rightarrow> nat" where
  "incr_wrap I N = (I + 1) mod N"

definition next_dim :: "nat \<Rightarrow> nat \<Rightarrow> nat" where
  "next_dim I D = incr_wrap I D"

text \<open>
  \<open>kd_less<I, K>\<close>: the overload enabled by \<open>is_not_last<K>\<close> compares axis \<open>I\<close> and, on
  equality, continues with \<open>kd_less<J, K + 1>\<close>; the overload enabled by \<open>is_last<K>\<close>
  (\<open>K = D - 1\<close>) only compares axis \<open>I\<close>.  \<open>K\<close> starts at 0 and never exceeds \<open>D - 1\<close>.
\<close>

function kd_less :: "nat \<Rightarrow> nat \<Rightarrow> nat \<Rightarrow> point \<Rightarrow> point \<Rightarrow> bool" where
  "kd_less D I K lhs rhs =
     (if K + 1 < D
      then (if lhs ! I = rhs ! I
            then kd_less D (next_dim I D) (K + 1) lhs rhs
            else lhs ! I < rhs ! I)
      else lhs ! I < rhs ! I)"
  by pat_completeness auto
termination
  by (relation "measure (\<lambda>(D, I, K, lhs, rhs). D - K)") auto

declare kd_less.simps [simp del]

text \<open>
  The recursive functors \<open>all_less_<I>\<close>, \<open>none_less_<I>\<close> and \<open>sum_of_squares_<I>\<close>
  are named \<open>all_less_from\<close>, \<open>none_less_from\<close> and \<open>sum_of_squares_from\<close> (a name
  cannot end in an underscore).
\<close>

function all_less_from :: "nat \<Rightarrow> nat \<Rightarrow> point \<Rightarrow> point \<Rightarrow> bool" where
  "all_less_from D I lhs rhs =
     (if I + 1 < D
      then lhs ! I < rhs ! I \<and> all_less_from D (I + 1) lhs rhs
      else lhs ! I < rhs ! I)"
  by pat_completeness auto
termination
  by (relation "measure (\<lambda>(D, I, lhs, rhs). D - I)") auto

declare all_less_from.simps [simp del]

definition all_less :: "nat \<Rightarrow> point \<Rightarrow> point \<Rightarrow> bool" where
  "all_less D lhs rhs = all_less_from D 0 lhs rhs"

function none_less_from :: "nat \<Rightarrow> nat \<Rightarrow> point \<Rightarrow> point \<Rightarrow> bool" where
  "none_less_from D I lhs rhs =
     (if I + 1 < D
      then lhs ! I \<ge> rhs ! I \<and> none_less_from D (I + 1) lhs rhs
      else lhs ! I \<ge> rhs ! I)"
  by pat_completeness auto
termination
  by (relation "measure (\<lambda>(D, I, lhs, rhs). D - I)") auto

declare none_less_from.simps [simp del]

definition none_less :: "nat \<Rightarrow> point \<Rightarrow> point \<Rightarrow> bool" where
  "none_less D lhs rhs = none_less_from D 0 lhs rhs"

function sum_of_squares_from :: "nat \<Rightarrow> nat \<Rightarrow> point \<Rightarrow> point \<Rightarrow> real" where
  "sum_of_squares_from D I lhs rhs =
     (if I + 1 < D
      then (diff_nth I rhs lhs)\<^sup>2 + sum_of_squares_from D (I + 1) lhs rhs
      else (diff_nth I rhs lhs)\<^sup>2)"
  by pat_completeness auto
termination
  by (relation "measure (\<lambda>(D, I, lhs, rhs). D - I)") auto

declare sum_of_squares_from.simps [simp del]

definition sum_of_squares :: "nat \<Rightarrow> point \<Rightarrow> point \<Rightarrow> real" where
  "sum_of_squares D lhs rhs = sum_of_squares_from D 0 lhs rhs"

definition l2dist :: "nat \<Rightarrow> point \<Rightarrow> point \<Rightarrow> real" where
  "l2dist D lhs rhs = sqrt (sum_of_squares D lhs rhs)"

text \<open>The source's \<open>within\<close>; the word is reserved by the syntax of filters in HOL.\<close>

definition within_box :: "nat \<Rightarrow> point \<Rightarrow> point \<Rightarrow> point \<Rightarrow> bool" where
  "within_box D v lower upper = (none_less D v lower \<and> all_less D v upper)"

section \<open>The standard algorithms the builder and the queries call\<close>

text \<open>
  \<open>std::nth_element\<close>, \<open>std::partition\<close>, \<open>std::partition_point\<close> and
  \<open>std::is_partitioned\<close> belong to the C++ library, not to kdtools.  The library fixes
  the result of \<open>nth_element\<close> and \<open>partition\<close> only up to their postconditions;
  the embedding realises each by one function that meets the postcondition
  (lemmas \<open>mset_nth_element\<close>, \<open>sorted_nth_element\<close>, \<open>mset_adjust_pivot\<close> and
  \<open>kd_sort_split\<close> below): \<open>nth_element\<close> sorts the range by insertion,
  \<open>partition\<close> keeps the relative order on both sides.
\<close>

fun insert_sorted :: "('a \<Rightarrow> 'a \<Rightarrow> bool) \<Rightarrow> 'a \<Rightarrow> 'a list \<Rightarrow> 'a list" where
  "insert_sorted cmp x [] = [x]"
| "insert_sorted cmp x (y # ys) =
     (if cmp y x then y # insert_sorted cmp x ys else x # y # ys)"

definition nth_element :: "('a \<Rightarrow> 'a \<Rightarrow> bool) \<Rightarrow> nat \<Rightarrow> 'a list \<Rightarrow> 'a list" where
  "nth_element cmp n xs = foldr (insert_sorted cmp) xs []"

text \<open>
  \<open>adjust_pivot(first, pivot, pred)\<close> is \<open>std::partition\<close> over \<open>[first, pivot)\<close>
  with the predicate \<open>pred(x, *pivot)\<close>; it returns the partition point.  The model
  takes the range as a list whose index \<open>pivot\<close> holds \<open>*pivot\<close> and returns the
  rearranged list with the new pivot index.
\<close>

definition adjust_pivot ::
  "('a \<Rightarrow> 'a \<Rightarrow> bool) \<Rightarrow> 'a list \<Rightarrow> nat \<Rightarrow> 'a list \<times> nat" where
  "adjust_pivot pred xs pivot =
     (let front = take pivot xs;
          yes = filter (\<lambda>x. pred x (xs ! pivot)) front;
          no = filter (\<lambda>x. \<not> pred x (xs ! pivot)) front
      in (yes @ no @ drop pivot xs, length yes))"

lemma length_insert_sorted: "length (insert_sorted cmp x ys) = Suc (length ys)"
  by (induction ys) auto

lemma length_nth_element: "length (nth_element cmp n xs) = length xs"
  unfolding nth_element_def by (induction xs) (auto simp: length_insert_sorted)

lemma adjust_pivot_length:
  "adjust_pivot pred xs pivot = (zs, p) \<Longrightarrow> length zs = length xs \<and> p \<le> pivot"
proof -
  assume h: "adjust_pivot pred xs pivot = (zs, p)"
  let ?front = "take pivot xs"
  let ?P = "\<lambda>x. pred x (xs ! pivot)"
  have zs: "zs = filter ?P ?front @ filter (\<lambda>x. \<not> ?P x) ?front @ drop pivot xs"
    and p: "p = length (filter ?P ?front)"
    using h by (auto simp: adjust_pivot_def Let_def)
  have "length (filter ?P ?front) + length (filter (\<lambda>x. \<not> ?P x) ?front) = length ?front"
    by (rule sum_length_filter_compl)
  moreover have "length (filter ?P ?front) \<le> length ?front"
    by (rule length_filter_le)
  ultimately show ?thesis
    unfolding zs p by auto
qed

section \<open>The builder\<close>

function kd_sort :: "nat \<Rightarrow> nat \<Rightarrow> point list \<Rightarrow> point list" where
  "kd_sort D I xs =
     (if length xs > 1 then
        (let pred = kd_less D I 0;
             pivot = middle_of 0 (length xs);
             ys = nth_element pred pivot xs
         in case adjust_pivot pred ys pivot of
              (zs, pivot') \<Rightarrow>
                kd_sort D (next_dim I D) (take pivot' zs) @ [zs ! pivot'] @
                kd_sort D (next_dim I D) (drop (Suc pivot') zs))
      else xs)"
  by pat_completeness auto
termination
  apply (relation "measure (\<lambda>(D, I, xs). length xs)")
    apply simp
   apply (auto simp: middle_of_def length_nth_element dest!: adjust_pivot_length [OF sym])
  done

declare kd_sort.simps [simp del]

section \<open>Pivot reconstruction and the verifier\<close>

text \<open>
  \<open>std::partition_point(first, first + n, pred)\<close> as libstdc++ and libc++ implement
  it: bisection over the range.  On a range that \<open>pred\<close> partitions it returns the
  first position where \<open>pred\<close> fails (lemma \<open>partition_point_partitioned\<close>).
\<close>

function partition_point :: "('a \<Rightarrow> bool) \<Rightarrow> 'a list \<Rightarrow> nat \<Rightarrow> nat \<Rightarrow> nat" where
  "partition_point pred A first n =
     (if n > 0 then
        (let half = n div 2; mid = first + half
         in if pred (A ! mid)
            then partition_point pred A (mid + 1) (n - half - 1)
            else partition_point pred A first half)
      else first)"
  by pat_completeness auto
termination
  by (relation "measure (\<lambda>(pred, A, first, n). n)") auto

declare partition_point.simps [simp del]

definition find_pivot :: "nat \<Rightarrow> point list \<Rightarrow> nat \<Rightarrow> nat \<Rightarrow> nat" where
  "find_pivot I A first lst =
     (let pivot = middle_of first lst
      in partition_point (\<lambda>x. less_nth I x (A ! pivot)) A first (pivot - first))"

text \<open>\<open>std::is_partitioned\<close>: every element satisfying \<open>pred\<close> precedes every one that does not.\<close>

definition is_partitioned :: "('a \<Rightarrow> bool) \<Rightarrow> 'a list \<Rightarrow> bool" where
  "is_partitioned pred xs = list_all (\<lambda>x. \<not> pred x) (dropWhile pred xs)"

definition check_partition ::
  "(point \<Rightarrow> point \<Rightarrow> bool) \<Rightarrow> point list \<Rightarrow> nat \<Rightarrow> nat \<Rightarrow> nat \<Rightarrow> bool" where
  "check_partition pred A first pivot lst =
     is_partitioned (\<lambda>x. pred x (A ! pivot)) (take (lst - first) (drop first A))"

lemma partition_point_bounds:
  "first \<le> partition_point pred A first n \<and> partition_point pred A first n \<le> first + n"
proof (induction pred A first n rule: partition_point.induct)
  case (1 pred A first n)
  show ?case
  proof (cases "n > 0")
    case False
    then show ?thesis by (subst (1 2) partition_point.simps) simp
  next
    case True
    show ?thesis
    proof (cases "pred (A ! (first + n div 2))")
      case True
      with \<open>n > 0\<close> 1(1) [OF \<open>n > 0\<close> refl refl True] show ?thesis
        by (subst (1 2) partition_point.simps) (simp add: Let_def)
    next
      case False
      moreover have "n div 2 \<le> n" by simp
      ultimately show ?thesis
        using \<open>n > 0\<close> 1(2) [OF \<open>n > 0\<close> refl refl False]
        by (subst (1 2) partition_point.simps) (auto simp: Let_def)
    qed
  qed
qed

lemma partition_point_partitioned:
  "k \<le> n \<Longrightarrow> \<forall>i<k. pred (A ! (first + i)) \<Longrightarrow> \<forall>i. k \<le> i \<and> i < n \<longrightarrow> \<not> pred (A ! (first + i)) \<Longrightarrow>
   partition_point pred A first n = first + k"
proof (induction pred A first n arbitrary: k rule: partition_point.induct)
  case (1 pred A first n)
  show ?case
  proof (cases "n > 0")
    case False
    then show ?thesis using "1.prems"(1) by (subst partition_point.simps) simp
  next
    case True
    define half where "half = n div 2"
    have h: "half < n" using True by (simp add: half_def)
    show ?thesis
    proof (cases "pred (A ! (first + half))")
      case t: True
      have hk: "half < k"
      proof (rule ccontr)
        assume "\<not> half < k"
        then have "k \<le> half \<and> half < n" using h by simp
        then show False using "1.prems"(3) t by blast
      qed
      have "partition_point pred A (first + half + 1) (n - half - 1) = first + half + 1 + (k - half - 1)"
      proof (rule "1.IH"(1) [OF True half_def refl])
        show "pred (A ! (first + half))" using t .
        show "k - half - 1 \<le> n - half - 1" using "1.prems"(1) by simp
        show "\<forall>i<k - half - 1. pred (A ! (first + half + 1 + i))"
        proof (intro allI impI)
          fix i assume "i < k - half - 1"
          then have "half + 1 + i < k" by simp
          then have "pred (A ! (first + (half + 1 + i)))" using "1.prems"(2) by blast
          then show "pred (A ! (first + half + 1 + i))" by (simp add: add.assoc)
        qed
        show "\<forall>i. k - half - 1 \<le> i \<and> i < n - half - 1 \<longrightarrow> \<not> pred (A ! (first + half + 1 + i))"
        proof (intro allI impI)
          fix i assume "k - half - 1 \<le> i \<and> i < n - half - 1"
          then have "k \<le> half + 1 + i \<and> half + 1 + i < n" by auto
          then have "\<not> pred (A ! (first + (half + 1 + i)))" using "1.prems"(3) by blast
          then show "\<not> pred (A ! (first + half + 1 + i))" by (simp add: add.assoc)
        qed
      qed
      then show ?thesis
        using True t hk by (subst partition_point.simps) (simp add: Let_def half_def)
    next
      case f: False
      have kh: "k \<le> half"
      proof (rule ccontr)
        assume "\<not> k \<le> half"
        then have "half < k" by simp
        then show False using "1.prems"(2) f by blast
      qed
      have "partition_point pred A first half = first + k"
      proof (rule "1.IH"(2) [OF True half_def refl])
        show "\<not> pred (A ! (first + half))" using f .
        show "k \<le> half" using kh .
        show "\<forall>i<k. pred (A ! (first + i))" using "1.prems"(2) .
        show "\<forall>i. k \<le> i \<and> i < half \<longrightarrow> \<not> pred (A ! (first + i))"
          using "1.prems"(3) h by auto
      qed
      then show ?thesis
        using True f by (subst partition_point.simps) (simp add: Let_def half_def)
    qed
  qed
qed

lemma find_pivot_bounds:
  assumes "lst - first > 1"
  shows "first \<le> find_pivot I A first lst" and "find_pivot I A first lst < lst"
proof -
  have m: "middle_of first lst < lst" "first \<le> middle_of first lst"
    using assms by (auto simp: middle_of_def)
  have "find_pivot I A first lst \<le> first + (middle_of first lst - first)"
    unfolding find_pivot_def Let_def using partition_point_bounds by blast
  with m show "find_pivot I A first lst < lst" by simp
  show "first \<le> find_pivot I A first lst"
    unfolding find_pivot_def Let_def using partition_point_bounds by blast
qed

function kd_is_sorted :: "nat \<Rightarrow> nat \<Rightarrow> point list \<Rightarrow> nat \<Rightarrow> nat \<Rightarrow> bool" where
  "kd_is_sorted D I A first lst =
     (if lst - first < 2 then True
      else (let pred = kd_less D I 0;
                pivot = find_pivot I A first lst
            in check_partition pred A first pivot lst \<and>
               kd_is_sorted D (next_dim I D) A first pivot \<and>
               kd_is_sorted D (next_dim I D) A (Suc pivot) lst))"
  by pat_completeness auto
termination
proof (relation "measure (\<lambda>(D, I, A, first, lst). lst - first)", goal_cases)
  case 1
  show ?case by simp
next
  case (2 D I A first lst pred pivot)
  then have "lst - first > 1" by simp
  from find_pivot_bounds [OF this, of I A] 2 show ?case by simp
next
  case (3 D I A first lst pred pivot)
  then have "lst - first > 1" by simp
  from find_pivot_bounds [OF this, of I A] 3 show ?case by simp
qed

declare kd_is_sorted.simps [simp del]

section \<open>Ordered queries\<close>

text \<open>
  The ordered queries dereference iterators that the source does not guard by a range
  check.  A dereference is therefore modelled as a checked read of the array: reading
  a position past the end of the array is the error \<open>Out_Of_Range\<close> (undefined
  behaviour in C++), and an error ends the query.  The array \<open>A\<close> is the whole range
  handed to the public function; \<open>first\<close> and \<open>lst\<close> delimit the subrange of a
  recursive call.
\<close>

datatype error = Out_Of_Range

definition deref :: "point list \<Rightarrow> nat \<Rightarrow> error + point" where
  "deref A i = (if i < length A then Inr (A ! i) else Inl Out_Of_Range)"

text \<open>The test \<open>it != last && pred(*it)\<close>; the right operand is only evaluated when the left holds.\<close>

definition found_at :: "(point \<Rightarrow> bool) \<Rightarrow> point list \<Rightarrow> nat \<Rightarrow> nat \<Rightarrow> error + bool" where
  "found_at pred A it lst =
     (if it \<noteq> lst
      then (case deref A it of Inl e \<Rightarrow> Inl e | Inr x \<Rightarrow> Inr (pred x))
      else Inr False)"

function kd_lower_bound ::
  "nat \<Rightarrow> nat \<Rightarrow> point list \<Rightarrow> nat \<Rightarrow> nat \<Rightarrow> point \<Rightarrow> error + nat" where
  "kd_lower_bound D I A first lst v =
     (if lst - first > 1 then
        (let pivot = find_pivot I A first lst
         in case deref A pivot of
              Inl e \<Rightarrow> Inl e
            | Inr pv \<Rightarrow>
                if none_less D pv v then kd_lower_bound D (next_dim I D) A first pivot v
                else if all_less D pv v then kd_lower_bound D (next_dim I D) A (Suc pivot) lst v
                else (case kd_lower_bound D (next_dim I D) A first pivot v of
                        Inl e \<Rightarrow> Inl e
                      | Inr it \<Rightarrow>
                          (case found_at (\<lambda>x. none_less D x v) A it lst of
                             Inl e \<Rightarrow> Inl e
                           | Inr True \<Rightarrow> Inr it
                           | Inr False \<Rightarrow>
                               (case kd_lower_bound D (next_dim I D) A (Suc pivot) lst v of
                                  Inl e \<Rightarrow> Inl e
                                | Inr it' \<Rightarrow>
                                    (case found_at (\<lambda>x. none_less D x v) A it' lst of
                                       Inl e \<Rightarrow> Inl e
                                     | Inr True \<Rightarrow> Inr it'
                                     | Inr False \<Rightarrow> Inr lst)))))
      else (case deref A first of
              Inl e \<Rightarrow> Inl e
            | Inr x \<Rightarrow> Inr (if none_less D x v then first else lst)))"
  by pat_completeness auto
termination
proof (relation "measure (\<lambda>(D, I, A, first, lst, v). lst - first)", goal_cases)
  case 1
  show ?case by simp
next
  case (2 D I A first lst v pivot)
  from find_pivot_bounds [OF 2(1), of I A] 2 show ?case by simp
next
  case (3 D I A first lst v pivot)
  from find_pivot_bounds [OF 3(1), of I A] 3 show ?case by simp
next
  case (4 D I A first lst v pivot)
  from find_pivot_bounds [OF 4(1), of I A] 4 show ?case by simp
next
  case (5 D I A first lst v pivot)
  from find_pivot_bounds [OF 5(1), of I A] 5 show ?case by simp
qed

declare kd_lower_bound.simps [simp del]

function kd_upper_bound ::
  "nat \<Rightarrow> nat \<Rightarrow> point list \<Rightarrow> nat \<Rightarrow> nat \<Rightarrow> point \<Rightarrow> error + nat" where
  "kd_upper_bound D I A first lst v =
     (if lst - first > 1 then
        (let pivot = find_pivot I A first lst
         in case deref A pivot of
              Inl e \<Rightarrow> Inl e
            | Inr pv \<Rightarrow>
                if all_less D v pv then kd_upper_bound D (next_dim I D) A first pivot v
                else if none_less D v pv then kd_upper_bound D (next_dim I D) A (Suc pivot) lst v
                else (case kd_upper_bound D (next_dim I D) A first pivot v of
                        Inl e \<Rightarrow> Inl e
                      | Inr it \<Rightarrow>
                          (case found_at (\<lambda>x. all_less D v x) A it lst of
                             Inl e \<Rightarrow> Inl e
                           | Inr True \<Rightarrow> Inr it
                           | Inr False \<Rightarrow>
                               (case kd_upper_bound D (next_dim I D) A (Suc pivot) lst v of
                                  Inl e \<Rightarrow> Inl e
                                | Inr it' \<Rightarrow>
                                    (case found_at (\<lambda>x. all_less D v x) A it' lst of
                                       Inl e \<Rightarrow> Inl e
                                     | Inr True \<Rightarrow> Inr it'
                                     | Inr False \<Rightarrow> Inr lst)))))
      else (case deref A first of
              Inl e \<Rightarrow> Inl e
            | Inr x \<Rightarrow> Inr (if all_less D v x then first else lst)))"
  by pat_completeness auto
termination
proof (relation "measure (\<lambda>(D, I, A, first, lst, v). lst - first)", goal_cases)
  case 1
  show ?case by simp
next
  case (2 D I A first lst v pivot)
  from find_pivot_bounds [OF 2(1), of I A] 2 show ?case by simp
next
  case (3 D I A first lst v pivot)
  from find_pivot_bounds [OF 3(1), of I A] 3 show ?case by simp
next
  case (4 D I A first lst v pivot)
  from find_pivot_bounds [OF 4(1), of I A] 4 show ?case by simp
next
  case (5 D I A first lst v pivot)
  from find_pivot_bounds [OF 5(1), of I A] 5 show ?case by simp
qed

declare kd_upper_bound.simps [simp del]

text \<open>The public functions start at axis 0 on the whole array.\<close>

definition kd_binary_search :: "nat \<Rightarrow> point list \<Rightarrow> point \<Rightarrow> error + bool" where
  "kd_binary_search D A v =
     (case kd_lower_bound D 0 A 0 (length A) v of
        Inl e \<Rightarrow> Inl e
      | Inr it \<Rightarrow> found_at (\<lambda>x. none_less D v x) A it (length A))"


section \<open>Spatial queries\<close>

text \<open>
  In \<open>kd_nearest_neighbor\<close>, \<open>knn\<close> and \<open>kd_range_query\<close> every dereference is of the
  pivot of a range of more than one element, of an iterator just compared with
  \<open>last\<close>, or of an iterator of a non-empty range, so the reads are written \<open>A ! i\<close>.

  \<open>adopt_near\<close> is the block of \<open>kd_nearest_neighbor\<close> between the near-side search
  and the far-side test (the assignments to \<open>search\<close> and \<open>min_dist\<close>); it returns both.
\<close>

definition adopt_near ::
  "nat \<Rightarrow> point list \<Rightarrow> nat \<Rightarrow> nat \<Rightarrow> nat \<Rightarrow> point \<Rightarrow> nat \<times> real" where
  "adopt_near D A pivot lst search v =
     (let min_dist = l2dist D (A ! pivot) v
      in if search = lst then (pivot, min_dist)
         else (let sdist = l2dist D (A ! search) v
               in if sdist < min_dist then (search, sdist) else (pivot, min_dist)))"

function kd_nearest_neighbor ::
  "nat \<Rightarrow> nat \<Rightarrow> point list \<Rightarrow> nat \<Rightarrow> nat \<Rightarrow> point \<Rightarrow> nat" where
  "kd_nearest_neighbor D I A first lst v =
     (if lst - first > 1 then
        (let pivot = find_pivot I A first lst;
             search_left = less_nth I v (A ! pivot);
             search = (if search_left
                       then kd_nearest_neighbor D (next_dim I D) A first pivot v
                       else kd_nearest_neighbor D (next_dim I D) A (Suc pivot) lst v)
         in case adopt_near D A pivot lst search v of
              (search', min_dist) \<Rightarrow>
                if dist_nth I v (A ! pivot) < min_dist
                then (let s2 = (if search_left
                                then kd_nearest_neighbor D (next_dim I D) A (Suc pivot) lst v
                                else kd_nearest_neighbor D (next_dim I D) A first pivot v)
                      in if s2 \<noteq> lst \<and> l2dist D (A ! s2) v < min_dist then s2 else search')
                else search')
      else first)"
  by pat_completeness auto
termination
proof (relation "measure (\<lambda>(D, I, A, first, lst, v). lst - first)", goal_cases)
  case 1
  show ?case by simp
next
  case (2 D I A first lst v pivot)
  from find_pivot_bounds [OF 2(1), of I A] 2 show ?case by simp
next
  case (3 D I A first lst v pivot)
  from find_pivot_bounds [OF 3(1), of I A] 3 show ?case by simp
next
  case (4 D I A first lst v pivot)
  from find_pivot_bounds [OF 4(1), of I A] 4 show ?case by simp
next
  case (5 D I A first lst v pivot)
  from find_pivot_bounds [OF 5(1), of I A] 5 show ?case by simp
qed

declare kd_nearest_neighbor.simps [simp del]

text \<open>
  \<open>kd_range_query\<close> writes to the output iterator; the model returns the elements
  written, in the order of the writes.
\<close>

function kd_range_query ::
  "nat \<Rightarrow> nat \<Rightarrow> point list \<Rightarrow> nat \<Rightarrow> nat \<Rightarrow> point \<Rightarrow> point \<Rightarrow> point list" where
  "kd_range_query D I A first lst lower upper =
     (if lst - first > 32 then
        (let pivot = find_pivot I A first lst
         in (if within_box D (A ! pivot) lower upper then [A ! pivot] else []) @
            (if \<not> less_nth I (A ! pivot) lower
             then kd_range_query D (next_dim I D) A first pivot lower upper else []) @
            (if less_nth I (A ! pivot) upper
             then kd_range_query D (next_dim I D) A (Suc pivot) lst lower upper else []))
      else filter (\<lambda>x. within_box D x lower upper) (take (lst - first) (drop first A)))"
  by pat_completeness auto
termination
proof (relation "measure (\<lambda>(D, I, A, first, lst, lower, upper). lst - first)", goal_cases)
  case 1
  show ?case by simp
next
  case (2 D I A first lst lower upper pivot)
  then have "lst - first > 1" by simp
  from find_pivot_bounds [OF this, of I A] 2 show ?case by simp
next
  case (3 D I A first lst lower upper pivot)
  then have "lst - first > 1" by simp
  from find_pivot_bounds [OF this, of I A] 3 show ?case by simp
qed

declare kd_range_query.simps [simp del]

section \<open>k nearest neighbours\<close>

text \<open>
  \<open>n_best\<close> holds the bound \<open>m_n\<close> and a \<open>std::priority_queue\<close> of
  (distance, iterator) pairs ordered by \<open>less_nth<0>\<close>, that is by distance only.
  The queue is modelled by the list of its entries in the order in which successive
  \<open>top()\<close>/\<open>pop()\<close> deliver them: by decreasing distance.  Among entries of equal
  distance the C++ library leaves the order open; the model delivers the older entry
  first.  \<open>numeric_limits<Key>::max()\<close> is the value \<open>Key_max\<close>, above every
  distance.
\<close>

record n_best =
  m_n :: nat
  m_q :: "(real \<times> nat) list"

datatype key = Key real | Key_max

definition n_best_init :: "nat \<Rightarrow> n_best" where
  "n_best_init n = \<lparr>m_n = n, m_q = []\<rparr>"

fun emplace :: "real \<times> nat \<Rightarrow> (real \<times> nat) list \<Rightarrow> (real \<times> nat) list" where
  "emplace e [] = [e]"
| "emplace e (x # xs) = (if fst x < fst e then e # x # xs else x # emplace e xs)"

definition max_key :: "n_best \<Rightarrow> key" where
  "max_key q = (if m_q q = [] then Key_max else Key (fst (hd (m_q q))))"

definition add :: "n_best \<Rightarrow> real \<Rightarrow> nat \<Rightarrow> n_best" where
  "add q d it =
     (let q' = q\<lparr>m_q := emplace (d, it) (m_q q)\<rparr>
      in if length (m_q q') > m_n q' then q'\<lparr>m_q := tl (m_q q')\<rparr> else q')"

fun copy_to :: "point list \<Rightarrow> (real \<times> nat) list \<Rightarrow> point list" where
  "copy_to A [] = []"
| "copy_to A (e # es) = A ! snd e # copy_to A es"

text \<open>The comparison \<open>d <= q.max_key()\<close>.\<close>

definition le_key :: "real \<Rightarrow> key \<Rightarrow> bool" where
  "le_key d k = (case k of Key m \<Rightarrow> d \<le> m | Key_max \<Rightarrow> True)"

function knn ::
  "nat \<Rightarrow> nat \<Rightarrow> point list \<Rightarrow> nat \<Rightarrow> nat \<Rightarrow> point \<Rightarrow> n_best \<Rightarrow> n_best" where
  "knn D I A first lst v q =
     (if lst - first = 1 then add q (l2dist D (A ! first) v) first
      else if lst - first = 0 then q
      else (let pivot = find_pivot I A first lst;
                q1 = add q (l2dist D (A ! pivot) v) pivot;
                search_left = less_nth I v (A ! pivot);
                q2 = (if search_left
                      then knn D (next_dim I D) A first pivot v q1
                      else knn D (next_dim I D) A (Suc pivot) lst v q1)
            in if le_key (dist_nth I v (A ! pivot)) (max_key q2)
               then (if search_left
                     then knn D (next_dim I D) A (Suc pivot) lst v q2
                     else knn D (next_dim I D) A first pivot v q2)
               else q2))"
  by pat_completeness auto
termination
proof (relation "measure (\<lambda>(D, I, A, first, lst, v, q). lst - first)", goal_cases)
  case 1
  show ?case by simp
next
  case (2 D I A first lst v q pivot)
  then have "lst - first > 1" by simp
  from find_pivot_bounds [OF this, of I A] 2 show ?case by simp
next
  case (3 D I A first lst v q pivot)
  then have "lst - first > 1" by simp
  from find_pivot_bounds [OF this, of I A] 3 show ?case by simp
next
  case (4 D I A first lst v q pivot)
  then have "lst - first > 1" by simp
  from find_pivot_bounds [OF this, of I A] 4 show ?case by simp
next
  case (5 D I A first lst v q pivot)
  then have "lst - first > 1" by simp
  from find_pivot_bounds [OF this, of I A] 5 show ?case by simp
qed

declare knn.simps [simp del]

definition kd_nearest_neighbors :: "nat \<Rightarrow> point list \<Rightarrow> point \<Rightarrow> nat \<Rightarrow> point list" where
  "kd_nearest_neighbors D A v n =
     copy_to A (m_q (knn D 0 A 0 (length A) v (n_best_init n)))"

section \<open>Evaluation helpers\<close>

text \<open>Comparisons of a square root with a non-negative number, for closed computations.\<close>

lemma sqrt_less_iff: "0 \<le> b \<Longrightarrow> (sqrt a < b) = (a < b\<^sup>2)"
  by (metis real_sqrt_less_iff real_sqrt_abs abs_of_nonneg)

lemma less_sqrt_iff: "0 \<le> b \<Longrightarrow> (b < sqrt a) = (b\<^sup>2 < a)"
  by (metis real_sqrt_less_iff real_sqrt_abs abs_of_nonneg)

lemma sqrt_le_iff: "0 \<le> b \<Longrightarrow> (sqrt a \<le> b) = (a \<le> b\<^sup>2)"
  by (metis real_sqrt_le_iff real_sqrt_abs abs_of_nonneg)

lemma le_sqrt_iff: "0 \<le> b \<Longrightarrow> (b \<le> sqrt a) = (b\<^sup>2 \<le> a)"
  by (metis real_sqrt_le_iff real_sqrt_abs abs_of_nonneg)

lemmas sqrt_cmp = sqrt_less_iff less_sqrt_iff sqrt_le_iff le_sqrt_iff

lemmas geometry_simps =
  l2dist_def sum_of_squares_def sum_of_squares_from.simps diff_nth_def dist_nth_def
  scalar_diff_def scalar_dist_def less_nth_def

section \<open>The builder preserves the elements\<close>

lemma mset_insert_sorted: "mset (insert_sorted cmp x ys) = add_mset x (mset ys)"
  by (induction ys) auto

lemma mset_nth_element: "mset (nth_element cmp n xs) = mset xs"
  unfolding nth_element_def by (induction xs) (auto simp: mset_insert_sorted)

lemma mset_filter_compl:
  "mset (filter P xs) + mset (filter (\<lambda>x. \<not> P x) xs) = mset xs"
  by (induction xs) auto

lemma mset_adjust_pivot: "mset (fst (adjust_pivot pred xs pivot)) = mset xs"
proof -
  let ?front = "take pivot xs"
  let ?P = "\<lambda>x. pred x (xs ! pivot)"
  have "mset (filter ?P ?front) + mset (filter (\<lambda>x. \<not> ?P x) ?front) = mset ?front"
    by (rule mset_filter_compl)
  then have "mset (filter ?P ?front @ filter (\<lambda>x. \<not> ?P x) ?front @ drop pivot xs)
      = mset ?front + mset (drop pivot xs)"
    by (simp add: ac_simps)
  also have "\<dots> = mset xs"
    by (metis append_take_drop_id mset_append)
  finally show ?thesis
    by (simp add: adjust_pivot_def Let_def)
qed

lemma mset_take_nth_drop:
  "p < length zs \<Longrightarrow> mset (take p zs) + {#zs ! p#} + mset (drop (Suc p) zs) = mset zs"
proof -
  assume "p < length zs"
  then have "zs = take p zs @ zs ! p # drop (Suc p) zs"
    by (rule id_take_nth_drop)
  then have "mset zs = mset (take p zs @ zs ! p # drop (Suc p) zs)"
    by simp
  then show ?thesis by simp
qed

lemma mset_kd_sort: "mset (kd_sort D I xs) = mset xs"
proof (induction D I xs rule: kd_sort.induct)
  case (1 D I xs)
  show ?case
  proof (cases "length xs > 1")
    case False
    then show ?thesis by (subst kd_sort.simps) simp
  next
    case True
    define pred where "pred = kd_less D I 0"
    define pivot where "pivot = middle_of 0 (length xs)"
    define ys where "ys = nth_element pred pivot xs"
    obtain zs p where zp: "adjust_pivot pred ys pivot = (zs, p)"
      by (cases "adjust_pivot pred ys pivot")
    have len: "length zs = length xs" "p \<le> pivot"
      using adjust_pivot_length [OF zp] by (auto simp: ys_def length_nth_element)
    have "pivot < length xs"
      using True by (simp add: pivot_def middle_of_def)
    with len have p: "p < length zs" by simp
    have zs: "mset zs = mset xs"
      using mset_adjust_pivot [of pred ys pivot] zp by (simp add: ys_def mset_nth_element)
    have l: "mset (kd_sort D (next_dim I D) (take p zs)) = mset (take p zs)"
      using 1(1) [OF True pred_def pivot_def ys_def zp [symmetric]] .
    have r: "mset (kd_sort D (next_dim I D) (drop (Suc p) zs)) = mset (drop (Suc p) zs)"
      using 1(2) [OF True pred_def pivot_def ys_def zp [symmetric]] .
    have "kd_sort D I xs =
        kd_sort D (next_dim I D) (take p zs) @ [zs ! p] @ kd_sort D (next_dim I D) (drop (Suc p) zs)"
      using True zp
      by (subst kd_sort.simps) (simp add: pred_def pivot_def ys_def Let_def)
    then show ?thesis
      using l r mset_take_nth_drop [OF p] zs by simp
  qed
qed

text \<open>
  C7.  For every array, \<open>kd_sort\<close> preserves the multiset of elements: every point of
  the input occurs in the output with the same multiplicity and no other point occurs.
  The same holds for each recursive step on its own, that is for the range after
  \<open>nth_element\<close> followed by \<open>adjust_pivot\<close>.
\<close>

theorem kd_sort_preserves_multiset:
  "mset (kd_sort D I xs) = mset xs \<and>
   mset (fst (adjust_pivot (kd_less D I 0)
               (nth_element (kd_less D I 0) (middle_of 0 (length xs)) xs)
               (middle_of 0 (length xs)))) = mset xs"
  by (simp add: mset_kd_sort mset_adjust_pivot mset_nth_element)

theorem kd_sort_preserves_multiset_witness:
  "mset (kd_sort 2 0 [[3, 1], [1, 4], [2, 2], [5, 5], [4, 3]]) =
   mset [[3, 1], [1, 4], [2, 2], [5, 5], [4, 3 :: real]]"
  using kd_sort_preserves_multiset [of 2 0 "[[3, 1], [1, 4], [2, 2], [5, 5], [4, 3]]"]
  by simp

section \<open>The builder against the verifier and the queries\<close>

text \<open>
  \<open>kd_sort\<close> partitions every range with the rotating lexicographic order \<open>kd_less<I>\<close>
  around its middle element, while \<open>find_pivot\<close>, which the verifier and every query
  use to find that element again, compares the single axis \<open>I\<close> with \<open>less_nth<I>\<close>.
  The two disagree as soon as an element left of the middle has the middle element's
  coordinate on axis \<open>I\<close>.  The arrays below consist of distinct points; for such an
  input the postconditions of \<open>nth_element\<close> and \<open>partition\<close> leave one possible
  result at every level, so the array that \<open>kd_sort\<close> returns does not depend on how
  the C++ library implements them.
\<close>

text \<open>
  C1 (fails on the code).  The claim: after \<open>kd_sort(A)\<close> the verifier
  \<open>kd_is_sorted(A)\<close> returns true, the pivot that \<open>find_pivot\<close> reconstructs being the
  partition boundary of the build.  For the three points \<open>(1,0), (0,0), (0,1)\<close> the
  build puts \<open>(0,1)\<close> in the middle slot 1, \<open>find_pivot\<close> reconstructs slot 0, and
  the verifier returns false on the array that \<open>kd_sort\<close> produced.
\<close>

theorem kd_is_sorted_rejects_kd_sort:
  "kd_sort 2 0 [[1, 0], [0, 0], [0, 1]] = [[0, 0], [0, 1], [1, 0]] \<and>
   snd (adjust_pivot (kd_less 2 0 0) (nth_element (kd_less 2 0 0) 1 [[1, 0], [0, 0], [0, 1]]) 1) = 1 \<and>
   find_pivot 0 (kd_sort 2 0 [[1, 0], [0, 0], [0, 1]]) 0 3 = 0 \<and>
   \<not> kd_is_sorted 2 0 (kd_sort 2 0 [[1, 0], [0, 0], [0, 1]]) 0 3"
  by code_simp

text \<open>
  C2 (fails on the code).  The claim: on a kd-sorted array \<open>kd_nearest_neighbor\<close> returns
  an element at minimal distance from the probe.  The array
  \<open>(0,1), (1,1), (1,2), (2,0)\<close> is what \<open>kd_sort\<close> returns for these four points; for the
  probe \<open>(1,-1)\<close> the query returns slot 1, the point \<open>(1,1)\<close> at distance 2, although
  \<open>(2,0)\<close> in slot 3 is at distance \<open>sqrt 2\<close>.
\<close>

lemma kd_sort_four_points:
  "kd_sort 2 0 [[2, 0], [1, 2], [1, 1], [0, 1]] = [[0, 1], [1, 1], [1, 2], [2, 0]]"
  by code_simp

lemma nearest_neighbor_four_points:
  "kd_nearest_neighbor 2 0 [[0, 1], [1, 1], [1, 2], [2, 0]] 0 4 [1, -1] = 1"
  by (simp add: kd_nearest_neighbor.simps find_pivot_def partition_point.simps middle_of_def
      adopt_near_def next_dim_def incr_wrap_def Let_def geometry_simps sqrt_cmp)

theorem kd_nearest_neighbor_not_nearest:
  "kd_nearest_neighbor 2 0 (kd_sort 2 0 [[2, 0], [1, 2], [1, 1], [0, 1]]) 0 4 [1, -1] = 1 \<and>
   kd_sort 2 0 [[2, 0], [1, 2], [1, 1], [0, 1]] ! 1 = [1, 1] \<and>
   kd_sort 2 0 [[2, 0], [1, 2], [1, 1], [0, 1]] ! 3 = [2, 0] \<and>
   l2dist 2 [2, 0] [1, -1] < l2dist 2 [1, 1] [1, -1]"
  using kd_sort_four_points nearest_neighbor_four_points
  by (simp add: geometry_simps sqrt_cmp)

text \<open>
  C3 (fails on the code).  The claim: on a kd-sorted array \<open>kd_range_query\<close> emits exactly
  the elements inside the half-open box.  \<open>range_input\<close> holds the 34 points
  \<open>(0,0), \<dots>, (0,17), (1,0), \<dots>, (1,15)\<close>; \<open>kd_sort\<close> returns it unchanged.  For the
  box from \<open>(1,0)\<close> to \<open>(2,1)\<close> the query emits nothing, although \<open>(1,0)\<close> lies in the
  box: at the second level the reconstructed pivot is \<open>(0,17)\<close> on axis 1, and the
  points \<open>(1,y)\<close> to its right are skipped because \<open>17 < 1\<close> fails.
\<close>

definition range_input :: "point list" where
  "range_input =
     [[0, 0], [0, 1], [0, 2], [0, 3], [0, 4], [0, 5], [0, 6], [0, 7], [0, 8], [0, 9],
      [0, 10], [0, 11], [0, 12], [0, 13], [0, 14], [0, 15], [0, 16], [0, 17],
      [1, 0], [1, 1], [1, 2], [1, 3], [1, 4], [1, 5], [1, 6], [1, 7], [1, 8], [1, 9],
      [1, 10], [1, 11], [1, 12], [1, 13], [1, 14], [1, 15]]"

theorem kd_range_query_misses_point:
  "kd_sort 2 0 range_input = range_input \<and>
   length range_input = 34 \<and>
   kd_range_query 2 0 (kd_sort 2 0 range_input) 0 34 [1, 0] [2, 1] = [] \<and>
   filter (\<lambda>x. within_box 2 x [1, 0] [2, 1]) (kd_sort 2 0 range_input) = [[1, 0]]"
  unfolding range_input_def by code_simp

text \<open>
  C4 (fails on the code).  The claim: \<open>kd_nearest_neighbors(A, v, k)\<close> emits the \<open>k\<close>
  elements of the kd-sorted array nearest to \<open>v\<close>.  On the array that \<open>kd_sort\<close> returns
  for \<open>(1,0), (0,0), (0,1)\<close>, with the probe \<open>(1,-1)\<close> and \<open>k = 1\<close>, the query emits
  \<open>(0,0)\<close> at distance \<open>sqrt 2\<close>; the point \<open>(1,0)\<close> at distance 1 is never visited.
\<close>

lemma kd_sort_three_points:
  "kd_sort 2 0 [[1, 0], [0, 0], [0, 1]] = [[0, 0], [0, 1], [1, 0]]"
  by code_simp

lemma nearest_neighbors_three_points:
  "kd_nearest_neighbors 2 [[0, 0], [0, 1], [1, 0]] [1, -1] 1 = [[0, 0]]"
  by (simp add: kd_nearest_neighbors_def knn.simps find_pivot_def partition_point.simps
      middle_of_def next_dim_def incr_wrap_def Let_def n_best_init_def add_def max_key_def
      le_key_def geometry_simps sqrt_cmp)

theorem kd_nearest_neighbors_not_nearest:
  "kd_nearest_neighbors 2 (kd_sort 2 0 [[1, 0], [0, 0], [0, 1]]) [1, -1] 1 = [[0, 0]] \<and>
   [1, 0] \<in> set (kd_sort 2 0 [[1, 0], [0, 0], [0, 1]]) \<and>
   l2dist 2 [1, 0] [1, -1] < l2dist 2 [0, 0] [1, -1]"
  using kd_sort_three_points nearest_neighbors_three_points
  by (simp add: geometry_simps sqrt_cmp)

text \<open>
  C10 (fails on the code).  The claim: \<open>kd_lower_bound\<close> and \<open>kd_upper_bound\<close> read only
  positions of the range, and the base case does not dereference \<open>first\<close> when
  \<open>first == last\<close>.  The base case \<open>return none_less(*first, value) ? first : last\<close>
  dereferences \<open>first\<close> for every range of at most one element, the empty one included.
  On the empty array, and on the kd-sorted array \<open>(0), (1)\<close> with the probe \<open>(5)\<close>
  (pivot in slot 1, empty right subrange), the read is past the end of the array.
\<close>

theorem kd_bounds_read_past_the_end:
  "kd_lower_bound D 0 [] 0 0 v = Inl Out_Of_Range \<and>
   kd_upper_bound D 0 [] 0 0 v = Inl Out_Of_Range \<and>
   kd_sort 1 0 [[0], [1]] = [[0], [1]] \<and>
   kd_is_sorted 1 0 [[0], [1]] 0 2 \<and>
   kd_lower_bound 1 0 [[0], [1]] 0 2 [5] = Inl Out_Of_Range \<and>
   kd_upper_bound 1 0 [[0], [1]] 0 2 [5] = Inl Out_Of_Range"
proof -
  have "kd_lower_bound D 0 [] 0 0 v = Inl Out_Of_Range"
    by (simp add: kd_lower_bound.simps deref_def)
  moreover have "kd_upper_bound D 0 [] 0 0 v = Inl Out_Of_Range"
    by (simp add: kd_upper_bound.simps deref_def)
  moreover have "kd_sort 1 0 [[0], [1]] = [[0], [1]]"
    by code_simp
  moreover have "kd_is_sorted 1 0 [[0], [1]] 0 2"
    by code_simp
  moreover have "kd_lower_bound 1 0 [[0], [1]] 0 2 [5] = Inl Out_Of_Range"
    by code_simp
  moreover have "kd_upper_bound 1 0 [[0], [1]] 0 2 [5] = Inl Out_Of_Range"
    by code_simp
  ultimately show ?thesis by blast
qed

section \<open>The recursive functors in closed form\<close>


lemma forall_from_split:
  assumes "(I::nat) < D"
  shows "(\<forall>i. I \<le> i \<and> i < D \<longrightarrow> P i) \<longleftrightarrow> (P I \<and> (\<forall>i. I + 1 \<le> i \<and> i < D \<longrightarrow> P i))"
proof
  assume h: "\<forall>i. I \<le> i \<and> i < D \<longrightarrow> P i"
  have "P I" using h [rule_format, of I] assms by simp
  moreover have "\<forall>i. I + 1 \<le> i \<and> i < D \<longrightarrow> P i"
  proof (intro allI impI)
    fix i assume "I + 1 \<le> i \<and> i < D"
    then have "I \<le> i \<and> i < D" by simp
    then show "P i" by (rule h [rule_format])
  qed
  ultimately show "P I \<and> (\<forall>i. I + 1 \<le> i \<and> i < D \<longrightarrow> P i)" by simp
next
  assume h: "P I \<and> (\<forall>i. I + 1 \<le> i \<and> i < D \<longrightarrow> P i)"
  show "\<forall>i. I \<le> i \<and> i < D \<longrightarrow> P i"
  proof (intro allI impI)
    fix i assume i: "I \<le> i \<and> i < D"
    show "P i"
    proof (cases "i = I")
      case True
      with h show ?thesis by simp
    next
      case False
      with i have "I + 1 \<le> i \<and> i < D" by simp
      then show ?thesis using h by simp
    qed
  qed
qed

lemma all_less_from_iff:
  "I < D \<Longrightarrow> all_less_from D I x y \<longleftrightarrow> (\<forall>i. I \<le> i \<and> i < D \<longrightarrow> x ! i < y ! i)"
proof (induction D I x y rule: all_less_from.induct)
  case (1 D I x y)
  show ?case
  proof (cases "I + 1 < D")
    case True
    have "(\<forall>i. I \<le> i \<and> i < D \<longrightarrow> x ! i < y ! i) \<longleftrightarrow>
          (x ! I < y ! I \<and> (\<forall>i. I + 1 \<le> i \<and> i < D \<longrightarrow> x ! i < y ! i))"
      using "1.prems" by (rule forall_from_split)
    then show ?thesis
      using True 1 by (subst all_less_from.simps) simp
  next
    case False
    with "1.prems" have "\<And>i. I \<le> i \<and> i < D \<longleftrightarrow> i = I" by auto
    then show ?thesis
      using False by (subst all_less_from.simps) simp
  qed
qed

lemma all_less_iff: "0 < D \<Longrightarrow> all_less D x y \<longleftrightarrow> (\<forall>i<D. x ! i < y ! i)"
  by (simp add: all_less_def all_less_from_iff)

lemma none_less_from_iff:
  "I < D \<Longrightarrow> none_less_from D I x y \<longleftrightarrow> (\<forall>i. I \<le> i \<and> i < D \<longrightarrow> y ! i \<le> x ! i)"
proof (induction D I x y rule: none_less_from.induct)
  case (1 D I x y)
  show ?case
  proof (cases "I + 1 < D")
    case True
    have "(\<forall>i. I \<le> i \<and> i < D \<longrightarrow> y ! i \<le> x ! i) \<longleftrightarrow>
          (y ! I \<le> x ! I \<and> (\<forall>i. I + 1 \<le> i \<and> i < D \<longrightarrow> y ! i \<le> x ! i))"
      using "1.prems" by (rule forall_from_split)
    then show ?thesis
      using True 1 by (subst none_less_from.simps) simp
  next
    case False
    with "1.prems" have "\<And>i. I \<le> i \<and> i < D \<longleftrightarrow> i = I" by auto
    then show ?thesis
      using False by (subst none_less_from.simps) simp
  qed
qed

lemma none_less_iff: "0 < D \<Longrightarrow> none_less D x y \<longleftrightarrow> (\<forall>i<D. y ! i \<le> x ! i)"
  by (simp add: none_less_def none_less_from_iff)

section \<open>Ties in the nearest-neighbour search\<close>

text \<open>
  C9 as stated fails.  The claim: when the near-side result ties with the pivot in
  distance, the near-side candidate is kept.  In the array \<open>(1), (3)\<close> with the probe
  \<open>(2)\<close> the pivot is slot 1, the near side is the left range and returns slot 0,
  both at distance 1; after the comparison \<open>sdist < min_dist\<close> the current best is
  the pivot, and the query returns slot 1.
\<close>

theorem near_side_tie_counterexample:
  "find_pivot 0 [[1], [3]] 0 2 = 1 \<and>
   less_nth 0 [2] ([[1], [3]] ! 1) \<and>
   kd_nearest_neighbor 1 0 [[1], [3]] 0 1 [2] = 0 \<and>
   l2dist 1 ([[1], [3]] ! 0) [2] = l2dist 1 ([[1], [3]] ! 1) [2] \<and>
   fst (adopt_near 1 [[1], [3]] 1 2 0 [2]) = 1 \<and>
   kd_nearest_neighbor 1 0 [[1], [3]] 0 2 [2] = 1"
  by (simp add: kd_nearest_neighbor.simps find_pivot_def partition_point.simps middle_of_def
      adopt_near_def next_dim_def incr_wrap_def Let_def geometry_simps sqrt_cmp)

text \<open>
  C9, amended.  When the near-side result is a valid candidate at the same distance
  from the probe as the pivot, the test \<open>sdist < min_dist\<close> fails and the pivot
  becomes the current best, with \<open>min_dist\<close> the pivot's distance; the query then
  returns the pivot unless the far side is searched and returns a strictly closer
  element.
\<close>

theorem near_side_tie_adopts_pivot:
  assumes "lst - first > 1"
    and "pivot = find_pivot I A first lst"
    and "near = (if less_nth I v (A ! pivot)
                 then kd_nearest_neighbor D (next_dim I D) A first pivot v
                 else kd_nearest_neighbor D (next_dim I D) A (Suc pivot) lst v)"
    and "far = (if less_nth I v (A ! pivot)
                then kd_nearest_neighbor D (next_dim I D) A (Suc pivot) lst v
                else kd_nearest_neighbor D (next_dim I D) A first pivot v)"
    and "near \<noteq> lst"
    and "l2dist D (A ! near) v = l2dist D (A ! pivot) v"
  shows "adopt_near D A pivot lst near v = (pivot, l2dist D (A ! pivot) v) \<and>
         kd_nearest_neighbor D I A first lst v =
           (if dist_nth I v (A ! pivot) < l2dist D (A ! pivot) v \<and> far \<noteq> lst \<and>
               l2dist D (A ! far) v < l2dist D (A ! pivot) v
            then far else pivot)"
proof -
  have a: "adopt_near D A pivot lst near v = (pivot, l2dist D (A ! pivot) v)"
    using assms(5,6) by (simp add: adopt_near_def Let_def)
  have "kd_nearest_neighbor D I A first lst v =
      (if dist_nth I v (A ! pivot) < l2dist D (A ! pivot) v \<and> far \<noteq> lst \<and>
          l2dist D (A ! far) v < l2dist D (A ! pivot) v
       then far else pivot)"
    using assms(1) a unfolding assms(2,3,4)
    by (subst kd_nearest_neighbor.simps) (simp add: Let_def)
  with a show ?thesis by simp
qed

theorem near_side_tie_adopts_pivot_witness:
  "kd_nearest_neighbor 1 0 [[1], [3]] 0 2 [2] = 1"
proof -
  have p: "find_pivot 0 [[1], [3]] 0 2 = 1"
    by (simp add: find_pivot_def partition_point.simps middle_of_def Let_def less_nth_def)
  have n: "kd_nearest_neighbor 1 (next_dim 0 1) [[1], [3]] 0 1 [2] = 0"
    by (simp add: kd_nearest_neighbor.simps)
  have f: "kd_nearest_neighbor 1 (next_dim 0 1) [[1], [3]] (Suc 1) 2 [2] = 2"
    by (simp add: kd_nearest_neighbor.simps)
  have l: "less_nth 0 [2] ([[1], [3]] ! 1)"
    by (simp add: less_nth_def)
  have "(2::nat) - 0 > 1" by simp
  from near_side_tie_adopts_pivot [OF this p [symmetric], of 0 "[2]" 1 2, unfolded if_P [OF l] n f]
  show ?thesis by (simp add: geometry_simps)
qed


section \<open>The bounded queue of the k-nearest-neighbour search\<close>


text \<open>
  The invariant of the queue: its entries are kept by decreasing distance and there
  are at most \<open>m_n\<close> of them.  \<open>n_best_init\<close> establishes it, \<open>add\<close> and \<open>knn\<close>
  maintain it.
\<close>

definition n_best_ok :: "n_best \<Rightarrow> bool" where
  "n_best_ok q = (sorted_wrt (\<lambda>a b. fst b \<le> fst a) (m_q q) \<and> length (m_q q) \<le> m_n q)"








lemma n_best_ok_init: "n_best_ok (n_best_init n)"
  by (simp add: n_best_ok_def n_best_init_def)












section \<open>The rotating lexicographic order\<close>

lemma next_dim_less: "0 < D \<Longrightarrow> next_dim I D < D"
  by (simp add: next_dim_def incr_wrap_def)

lemma next_dim_shift: "(next_dim I D + k) mod D = (I + Suc k) mod D"
  by (simp add: next_dim_def incr_wrap_def mod_add_left_eq)

lemma kd_less_iff:
  "I < D \<Longrightarrow> K < D \<Longrightarrow>
   kd_less D I K x y \<longleftrightarrow>
     (\<exists>k. k < D - K \<and> x ! ((I + k) mod D) < y ! ((I + k) mod D) \<and>
          (\<forall>j<k. x ! ((I + j) mod D) = y ! ((I + j) mod D)))"
proof (induction D I K x y rule: kd_less.induct)
  case (1 D I K x y)
  let ?P = "\<lambda>I k. x ! ((I + k) mod D) < y ! ((I + k) mod D)"
  let ?Q = "\<lambda>I j. x ! ((I + j) mod D) = y ! ((I + j) mod D)"
  have I0: "(I + 0) mod D = I" using "1.prems" by simp
  show ?case
  proof (cases "K + 1 < D")
    case False
    with "1.prems" have "D - K = 1" by simp
    then have "(\<exists>k. k < D - K \<and> ?P I k \<and> (\<forall>j<k. ?Q I j)) \<longleftrightarrow> ?P I 0"
      by auto
    then show ?thesis
      using False I0 by (subst kd_less.simps) simp
  next
    case K: True
    show ?thesis
    proof (cases "x ! I = y ! I")
      case False
      have "(\<exists>k. k < D - K \<and> ?P I k \<and> (\<forall>j<k. ?Q I j)) \<longleftrightarrow> x ! I < y ! I"
      proof
        assume "\<exists>k. k < D - K \<and> ?P I k \<and> (\<forall>j<k. ?Q I j)"
        then obtain k where k: "k < D - K" "?P I k" "\<forall>j<k. ?Q I j" by blast
        have "k = 0"
        proof (rule ccontr)
          assume "k \<noteq> 0"
          then have "?Q I 0" using k(3) by blast
          with False I0 show False by simp
        qed
        with k(2) I0 show "x ! I < y ! I" by simp
      next
        assume "x ! I < y ! I"
        then have "0 < D - K \<and> ?P I 0 \<and> (\<forall>j<0. ?Q I j)"
          using K I0 by simp
        then show "\<exists>k. k < D - K \<and> ?P I k \<and> (\<forall>j<k. ?Q I j)" by blast
      qed
      then show ?thesis
        using K False by (subst kd_less.simps) simp
    next
      case eq: True
      have nd: "next_dim I D < D"
        using "1.prems" by (simp add: next_dim_less)
      have ih: "kd_less D (next_dim I D) (K + 1) x y \<longleftrightarrow>
          (\<exists>k. k < D - (K + 1) \<and> ?P (next_dim I D) k \<and> (\<forall>j<k. ?Q (next_dim I D) j))"
        using "1.IH" [OF K eq nd K] .
      have sh: "\<And>k. ?P (next_dim I D) k = ?P I (Suc k)" "\<And>j. ?Q (next_dim I D) j = ?Q I (Suc j)"
        by (simp_all only: next_dim_shift)
      have "(\<exists>k. k < D - (K + 1) \<and> ?P I (Suc k) \<and> (\<forall>j<k. ?Q I (Suc j))) \<longleftrightarrow>
            (\<exists>k. k < D - K \<and> ?P I k \<and> (\<forall>j<k. ?Q I j))"
      proof
        assume "\<exists>k. k < D - (K + 1) \<and> ?P I (Suc k) \<and> (\<forall>j<k. ?Q I (Suc j))"
        then obtain k where k: "k < D - (K + 1)" "?P I (Suc k)" "\<forall>j<k. ?Q I (Suc j)" by blast
        have "\<forall>j<Suc k. ?Q I j"
        proof (intro allI impI)
          fix j assume "j < Suc k"
          then show "?Q I j"
            using k(3) eq I0 by (cases j) auto
        qed
        moreover have "Suc k < D - K" using k(1) by simp
        ultimately show "\<exists>k. k < D - K \<and> ?P I k \<and> (\<forall>j<k. ?Q I j)"
          using k(2) by blast
      next
        assume "\<exists>k. k < D - K \<and> ?P I k \<and> (\<forall>j<k. ?Q I j)"
        then obtain k where k: "k < D - K" "?P I k" "\<forall>j<k. ?Q I j" by blast
        have "k \<noteq> 0"
        proof
          assume "k = 0"
          with k(2) have "x ! ((I + 0) mod D) < y ! ((I + 0) mod D)" by simp
          with eq show False unfolding I0 by simp
        qed
        then obtain k' where k': "k = Suc k'" by (cases k) auto
        have "k' < D - (K + 1)" using k(1) k' by simp
        moreover have "\<forall>j<k'. ?Q I (Suc j)"
        proof (intro allI impI)
          fix j assume "j < k'"
          then have "Suc j < k" using k' by simp
          then show "?Q I (Suc j)" using k(3) by blast
        qed
        ultimately show "\<exists>k. k < D - (K + 1) \<and> ?P I (Suc k) \<and> (\<forall>j<k. ?Q I (Suc j))"
          using k(2) k' by blast
      qed
      with ih sh have "kd_less D (next_dim I D) (K + 1) x y \<longleftrightarrow>
          (\<exists>k. k < D - K \<and> ?P I k \<and> (\<forall>j<k. ?Q I j))"
        by simp
      then show ?thesis
        using K eq by (subst kd_less.simps) simp
    qed
  qed
qed

lemma kd_less_0_iff:
  "I < D \<Longrightarrow>
   kd_less D I 0 x y \<longleftrightarrow>
     (\<exists>k<D. x ! ((I + k) mod D) < y ! ((I + k) mod D) \<and>
            (\<forall>j<k. x ! ((I + j) mod D) = y ! ((I + j) mod D)))"
  using kd_less_iff [of I D 0 x y] by auto

lemma kd_less_asym:
  assumes "I < D" "kd_less D I 0 x y"
  shows "\<not> kd_less D I 0 y x"
proof
  assume "kd_less D I 0 y x"
  then obtain k2 where k2: "k2 < D" "y ! ((I + k2) mod D) < x ! ((I + k2) mod D)"
      "\<forall>j<k2. y ! ((I + j) mod D) = x ! ((I + j) mod D)"
    using assms(1) by (auto simp: kd_less_0_iff)
  obtain k1 where k1: "k1 < D" "x ! ((I + k1) mod D) < y ! ((I + k1) mod D)"
      "\<forall>j<k1. x ! ((I + j) mod D) = y ! ((I + j) mod D)"
    using assms by (auto simp: kd_less_0_iff)
  consider "k1 < k2" | "k2 < k1" | "k1 = k2" by linarith
  then show False
  proof cases
    case 1
    with k2(3) k1(2) show False by auto
  next
    case 2
    with k1(3) k2(2) show False by auto
  next
    case 3
    with k1(2) k2(2) show False by auto
  qed
qed

lemma kd_less_irrefl: "I < D \<Longrightarrow> \<not> kd_less D I 0 x x"
  using kd_less_asym by blast

lemma kd_less_trans:
  assumes "I < D" "kd_less D I 0 x y" "kd_less D I 0 y z"
  shows "kd_less D I 0 x z"
proof -
  obtain k1 where k1: "k1 < D" "x ! ((I + k1) mod D) < y ! ((I + k1) mod D)"
      "\<forall>j<k1. x ! ((I + j) mod D) = y ! ((I + j) mod D)"
    using assms(1,2) by (auto simp: kd_less_0_iff)
  obtain k2 where k2: "k2 < D" "y ! ((I + k2) mod D) < z ! ((I + k2) mod D)"
      "\<forall>j<k2. y ! ((I + j) mod D) = z ! ((I + j) mod D)"
    using assms(1,3) by (auto simp: kd_less_0_iff)
  let ?k = "min k1 k2"
  have "?k < D" using k1(1) by simp
  moreover have "x ! ((I + ?k) mod D) < z ! ((I + ?k) mod D)"
  proof -
    consider "k1 < k2" | "k2 < k1" | "k1 = k2" by linarith
    then show ?thesis
    proof cases
      case 1
      then have "y ! ((I + k1) mod D) = z ! ((I + k1) mod D)" using k2(3) by blast
      with k1(2) 1 show ?thesis by (simp add: min_def)
    next
      case 2
      then have "x ! ((I + k2) mod D) = y ! ((I + k2) mod D)" using k1(3) by blast
      with k2(2) 2 show ?thesis by (simp add: min_def)
    next
      case 3
      with k1(2) k2(2) show ?thesis by (simp add: min_def)
    qed
  qed
  moreover have "\<forall>j<?k. x ! ((I + j) mod D) = z ! ((I + j) mod D)"
    using k1(3) k2(3) by simp
  ultimately show ?thesis
    using assms(1) unfolding kd_less_0_iff [OF assms(1)] by blast
qed

lemma first_difference:
  assumes "I < D" "length x = D" "length y = D" "x \<noteq> y"
  shows "\<exists>k<D. x ! ((I + k) mod D) \<noteq> y ! ((I + k) mod D) \<and>
           (\<forall>j<k. x ! ((I + j) mod D) = y ! ((I + j) mod D))"
proof -
  obtain i where i: "i < D" "x ! i \<noteq> y ! i"
    using assms(2,3,4) by (metis nth_equalityI)
  let ?S = "\<lambda>k. k < D \<and> x ! ((I + k) mod D) \<noteq> y ! ((I + k) mod D)"
  have "(I + (i + D - I) mod D) mod D = i"
  proof -
    have "(I + (i + D - I) mod D) mod D = (I + (i + D - I)) mod D"
      by (simp add: mod_add_right_eq)
    also have "I + (i + D - I) = i + D" using assms(1) by simp
    finally show ?thesis using i(1) by simp
  qed
  moreover have "(i + D - I) mod D < D" using assms(1) by simp
  ultimately have "?S ((i + D - I) mod D)" using i(2) by simp
  then have ex: "\<exists>k. ?S k" by blast
  define k where "k = (LEAST k. ?S k)"
  have "?S k" unfolding k_def using ex by (rule LeastI_ex)
  moreover have "\<forall>j<k. x ! ((I + j) mod D) = y ! ((I + j) mod D)"
  proof (intro allI impI)
    fix j assume "j < k"
    then have "\<not> ?S j" unfolding k_def by (rule not_less_Least)
    moreover have "j < D" using \<open>j < k\<close> \<open>?S k\<close> by simp
    ultimately show "x ! ((I + j) mod D) = y ! ((I + j) mod D)" by simp
  qed
  ultimately show ?thesis by blast
qed

lemma kd_less_total:
  assumes "I < D" "length x = D" "length y = D" "x \<noteq> y"
  shows "kd_less D I 0 x y \<or> kd_less D I 0 y x"
proof -
  obtain k where k: "k < D" "x ! ((I + k) mod D) \<noteq> y ! ((I + k) mod D)"
      "\<forall>j<k. x ! ((I + j) mod D) = y ! ((I + j) mod D)"
    using first_difference [OF assms] by blast
  then consider "x ! ((I + k) mod D) < y ! ((I + k) mod D)" | "y ! ((I + k) mod D) < x ! ((I + k) mod D)"
    by linarith
  then show ?thesis
  proof cases
    case 1
    with k have "kd_less D I 0 x y" unfolding kd_less_0_iff [OF assms(1)] by blast
    then show ?thesis ..
  next
    case 2
    with k have "kd_less D I 0 y x" unfolding kd_less_0_iff [OF assms(1)] by (metis)
    then show ?thesis ..
  qed
qed

text \<open>A point that is componentwise at least another, different point comes after it.\<close>

lemma dominated_kd_less:
  assumes "I < D" "length x = D" "length y = D" "none_less D x y" "x \<noteq> y"
  shows "kd_less D I 0 y x"
proof -
  obtain k where k: "k < D" "x ! ((I + k) mod D) \<noteq> y ! ((I + k) mod D)"
      "\<forall>j<k. x ! ((I + j) mod D) = y ! ((I + j) mod D)"
    using first_difference [OF assms(1,2,3,5)] by blast
  have "(I + k) mod D < D" using assms(1) by simp
  then have "y ! ((I + k) mod D) \<le> x ! ((I + k) mod D)"
    using assms(1,4) by (simp add: none_less_iff)
  with k(2) have "y ! ((I + k) mod D) < x ! ((I + k) mod D)" by simp
  with k show ?thesis unfolding kd_less_0_iff [OF assms(1)] by metis
qed

lemma kd_less_negtrans:
  assumes "I < D" "length a = D" "length b = D" "length c = D"
    and "\<not> kd_less D I 0 b a" "\<not> kd_less D I 0 c b"
  shows "\<not> kd_less D I 0 c a"
proof
  assume ca: "kd_less D I 0 c a"
  show False
  proof (cases "a = b")
    case True
    with ca assms(6) show False by simp
  next
    case False
    with assms(1,2,3,5) have "kd_less D I 0 a b"
      using kd_less_total by blast
    with ca assms(1) have "kd_less D I 0 c b" by (blast intro: kd_less_trans)
    with assms(6) show False by simp
  qed
qed


section \<open>The array that the builder leaves\<close>

lemma set_nth_element: "set (nth_element cmp n xs) = set xs"
  using mset_nth_element [of cmp n xs] by (metis set_mset_mset)

lemma set_insert_sorted: "set (insert_sorted cmp x ys) = insert x (set ys)"
  using mset_insert_sorted [of cmp x ys] by (metis set_mset_mset set_mset_add_mset_insert)

lemma sorted_insert_sorted:
  assumes "I < D" "length x = D"
  shows "\<forall>p\<in>set ys. length p = D \<Longrightarrow> sorted_wrt (\<lambda>a b. \<not> kd_less D I 0 b a) ys \<Longrightarrow>
         sorted_wrt (\<lambda>a b. \<not> kd_less D I 0 b a) (insert_sorted (kd_less D I 0) x ys)"
proof (induction ys)
  case Nil
  then show ?case by simp
next
  case (Cons y ys)
  have ly: "length y = D" using Cons.prems(1) by simp
  show ?case
  proof (cases "kd_less D I 0 y x")
    case True
    have "\<not> kd_less D I 0 x y"
      using kd_less_asym [OF assms(1) True] .
    moreover have "sorted_wrt (\<lambda>a b. \<not> kd_less D I 0 b a) (insert_sorted (kd_less D I 0) x ys)"
      using Cons by simp
    ultimately show ?thesis
      using True Cons.prems(2) by (auto simp: set_insert_sorted)
  next
    case False
    have "\<not> kd_less D I 0 z x" if "z \<in> set ys" for z
    proof -
      have "\<not> kd_less D I 0 z y" using Cons.prems(2) that by auto
      moreover have "length z = D" using Cons.prems(1) that by simp
      ultimately show ?thesis
        using kd_less_negtrans [OF assms(1) assms(2) ly _ False] by blast
    qed
    then show ?thesis
      using False Cons.prems(2) by auto
  qed
qed

lemma sorted_nth_element:
  assumes "I < D"
  shows "\<forall>p\<in>set xs. length p = D \<Longrightarrow>
         sorted_wrt (\<lambda>a b. \<not> kd_less D I 0 b a) (nth_element (kd_less D I 0) n xs)"
proof (induction xs)
  case Nil
  then show ?case by (simp add: nth_element_def)
next
  case (Cons x xs)
  have "sorted_wrt (\<lambda>a b. \<not> kd_less D I 0 b a) (nth_element (kd_less D I 0) n xs)"
    using Cons by simp
  moreover have "\<forall>p\<in>set (nth_element (kd_less D I 0) n xs). length p = D"
    using Cons.prems by (simp add: set_nth_element)
  moreover have "length x = D" using Cons.prems by simp
  ultimately have "sorted_wrt (\<lambda>a b. \<not> kd_less D I 0 b a)
      (insert_sorted (kd_less D I 0) x (nth_element (kd_less D I 0) n xs))"
    using sorted_insert_sorted [OF assms] by blast
  then show ?case by (simp add: nth_element_def)
qed

text \<open>
  After \<open>nth_element\<close> and \<open>adjust_pivot\<close> the elements before the pivot are
  \<open>kd_less\<close> than the pivot and the elements after it are not.
\<close>

lemma kd_sort_split:
  assumes "I < D" "\<forall>q\<in>set xs. length q = D" "1 < length xs"
    and "adjust_pivot (kd_less D I 0)
           (nth_element (kd_less D I 0) (middle_of 0 (length xs)) xs)
           (middle_of 0 (length xs)) = (zs, p)"
  shows "\<forall>x\<in>set (take p zs). kd_less D I 0 x (zs ! p)"
    and "\<forall>y\<in>set (drop (Suc p) zs). \<not> kd_less D I 0 y (zs ! p)"
proof -
  define m where "m = middle_of 0 (length xs)"
  define ys where "ys = nth_element (kd_less D I 0) m xs"
  define piv where "piv = ys ! m"
  define front where "front = take m ys"
  define yes where "yes = filter (\<lambda>x. kd_less D I 0 x piv) front"
  define no where "no = filter (\<lambda>x. \<not> kd_less D I 0 x piv) front"
  define rest where "rest = no @ drop m ys"
  have len: "length ys = length xs" by (simp add: ys_def length_nth_element)
  have m: "m < length ys" using assms(3) len by (simp add: m_def middle_of_def)
  have wf: "\<forall>q\<in>set ys. length q = D" using assms(2) by (simp add: ys_def set_nth_element)
  have srt: "sorted_wrt (\<lambda>a b. \<not> kd_less D I 0 b a) ys"
    unfolding ys_def using sorted_nth_element [OF assms(1) assms(2)] .
  have lpiv: "length piv = D" using wf m by (simp add: piv_def)
  have zs: "zs = yes @ rest" and p: "p = length yes"
    using assms(4)
    by (auto simp: adjust_pivot_def Let_def m_def ys_def piv_def front_def yes_def no_def rest_def)
  have A: "\<not> kd_less D I 0 piv e" if "e \<in> set front" for e
  proof -
    from that obtain i where i: "i < m" "e = ys ! i"
      unfolding front_def using m by (auto simp: in_set_conv_nth)
    then show ?thesis
      using srt m by (simp add: piv_def sorted_wrt_iff_nth_less)
  qed
  have B: "\<not> kd_less D I 0 e piv" if "e \<in> set (drop m ys)" for e
  proof -
    from that obtain j where j: "m \<le> j" "j < length ys" "e = ys ! j"
      by (auto simp: in_set_conv_nth) (metis le_add1 less_diff_conv add.commute)
    show ?thesis
    proof (cases "j = m")
      case True
      then show ?thesis using j kd_less_irrefl [OF assms(1)] by (simp add: piv_def)
    next
      case False
      with j have "m < j" by simp
      then show ?thesis
        using srt j by (simp add: piv_def sorted_wrt_iff_nth_less)
    qed
  qed
  have N: "e = piv" if "e \<in> set no" for e
  proof (rule ccontr)
    assume ne: "e \<noteq> piv"
    have e: "e \<in> set front" "\<not> kd_less D I 0 e piv" using that by (auto simp: no_def)
    have "length e = D" using e(1) wf by (auto simp: front_def dest: in_set_takeD)
    then have "kd_less D I 0 e piv \<or> kd_less D I 0 piv e"
      using kd_less_total [OF assms(1) _ lpiv ne] by simp
    with e A show False by blast
  qed
  have R: "\<not> kd_less D I 0 e piv" if "e \<in> set rest" for e
    using that N B kd_less_irrefl [OF assms(1)] by (auto simp: rest_def)
  have dne: "drop m ys \<noteq> []" using m by simp
  then have rne: "rest \<noteq> []" by (simp add: rest_def)
  have hd: "hd rest = piv"
  proof (cases no)
    case Nil
    then show ?thesis using m by (simp add: rest_def piv_def hd_drop_conv_nth)
  next
    case (Cons e es)
    then have "e \<in> set no" by simp
    then show ?thesis using N Cons by (simp add: rest_def)
  qed
  have zp: "zs ! p = piv"
    using hd rne by (simp add: zs p nth_append hd_conv_nth)
  have tk: "take p zs = yes" by (simp add: zs p)
  have dr: "drop (Suc p) zs = tl rest" by (simp add: zs p drop_Suc)
  show "\<forall>x\<in>set (take p zs). kd_less D I 0 x (zs ! p)"
    unfolding tk zp by (simp add: yes_def)
  show "\<forall>y\<in>set (drop (Suc p) zs). \<not> kd_less D I 0 y (zs ! p)"
    unfolding dr zp using R rne by (metis list.set_sel(2))
qed

text \<open>
  In the array that \<open>kd_sort\<close> returns, no element is componentwise at least a
  different element that comes later.
\<close>

lemma kd_sort_dominance:
  "0 < D \<Longrightarrow> I < D \<Longrightarrow> \<forall>q\<in>set xs. length q = D \<Longrightarrow>
   sorted_wrt (\<lambda>a b. \<not> (none_less D a b \<and> a \<noteq> b)) (kd_sort D I xs)"
proof (induction D I xs rule: kd_sort.induct)
  case (1 D I xs)
  let ?ord = "sorted_wrt (\<lambda>a b. \<not> (none_less D a b \<and> a \<noteq> b))"
  show ?case
  proof (cases "length xs > 1")
    case False
    then have "xs = [] \<or> (\<exists>x. xs = [x])"
      by (cases xs) auto
    then have "?ord xs" by auto
    then show ?thesis using False by (subst kd_sort.simps) simp
  next
    case True
    define pred where "pred = kd_less D I 0"
    define pivot where "pivot = middle_of 0 (length xs)"
    define ys where "ys = nth_element pred pivot xs"
    obtain zs p where zp: "adjust_pivot pred ys pivot = (zs, p)"
      by (cases "adjust_pivot pred ys pivot")
    have len: "length zs = length xs" "p \<le> pivot"
      using adjust_pivot_length [OF zp] by (auto simp: ys_def length_nth_element)
    have "pivot < length xs"
      using True by (simp add: pivot_def middle_of_def)
    with len have p: "p < length zs" by simp
    have "mset zs = mset xs"
      using mset_adjust_pivot [of pred ys pivot] zp by (simp add: ys_def mset_nth_element)
    then have setzs: "set zs = set xs" by (metis set_mset_mset)
    have wfz: "\<forall>q\<in>set zs. length q = D" using "1.prems"(3) setzs by simp
    have wfl: "\<forall>q\<in>set (take p zs). length q = D" using wfz by (auto dest: in_set_takeD)
    have wfr: "\<forall>q\<in>set (drop (Suc p) zs). length q = D" using wfz by (auto dest: in_set_dropD)
    have lpiv: "length (zs ! p) = D" using wfz p by simp
    have nd: "next_dim I D < D" using "1.prems"(1) by (rule next_dim_less)
    have l: "?ord (kd_sort D (next_dim I D) (take p zs))"
      using "1.IH"(1) [OF True pred_def pivot_def ys_def zp [symmetric] "1.prems"(1) nd wfl] .
    have r: "?ord (kd_sort D (next_dim I D) (drop (Suc p) zs))"
      using "1.IH"(2) [OF True pred_def pivot_def ys_def zp [symmetric] "1.prems"(1) nd wfr] .
    have sl: "set (kd_sort D (next_dim I D) (take p zs)) = set (take p zs)"
      using mset_kd_sort by (metis set_mset_mset)
    have sr: "set (kd_sort D (next_dim I D) (drop (Suc p) zs)) = set (drop (Suc p) zs)"
      using mset_kd_sort by (metis set_mset_mset)
    have split: "\<forall>x\<in>set (take p zs). kd_less D I 0 x (zs ! p)"
        "\<forall>y\<in>set (drop (Suc p) zs). \<not> kd_less D I 0 y (zs ! p)"
      using kd_sort_split [OF "1.prems"(2,3) True] zp
      by (simp_all add: pred_def pivot_def ys_def)
    have lp: "\<not> (none_less D a (zs ! p) \<and> a \<noteq> zs ! p)" if "a \<in> set (take p zs)" for a
    proof
      assume d: "none_less D a (zs ! p) \<and> a \<noteq> zs ! p"
      have "length a = D" using wfl that by simp
      then have "kd_less D I 0 (zs ! p) a"
        using dominated_kd_less [OF "1.prems"(2) _ lpiv] d by simp
      moreover have "kd_less D I 0 a (zs ! p)" using split(1) that by simp
      ultimately show False using kd_less_asym [OF "1.prems"(2)] by blast
    qed
    have pr: "\<not> (none_less D (zs ! p) b \<and> zs ! p \<noteq> b)" if "b \<in> set (drop (Suc p) zs)" for b
    proof
      assume d: "none_less D (zs ! p) b \<and> zs ! p \<noteq> b"
      have "length b = D" using wfr that by simp
      then have "kd_less D I 0 b (zs ! p)"
        using dominated_kd_less [OF "1.prems"(2) lpiv] d by simp
      then show False using split(2) that by simp
    qed
    have lr: "\<not> (none_less D a b \<and> a \<noteq> b)"
      if "a \<in> set (take p zs)" "b \<in> set (drop (Suc p) zs)" for a b
    proof
      assume d: "none_less D a b \<and> a \<noteq> b"
      have "length a = D" "length b = D" using wfl wfr that by simp_all
      then have "kd_less D I 0 b a"
        using dominated_kd_less [OF "1.prems"(2)] d by simp
      moreover have "kd_less D I 0 a (zs ! p)" using split(1) that by simp
      ultimately have "kd_less D I 0 b (zs ! p)"
        using kd_less_trans [OF "1.prems"(2)] by blast
      then show False using split(2) that by simp
    qed
    have "kd_sort D I xs =
        kd_sort D (next_dim I D) (take p zs) @ [zs ! p] @ kd_sort D (next_dim I D) (drop (Suc p) zs)"
      using True zp
      by (subst kd_sort.simps) (simp add: pred_def pivot_def ys_def Let_def)
    then show ?thesis
      using l r lp pr lr by (simp add: sorted_wrt_append sl sr)
  qed
qed


section \<open>The ordered queries\<close>

lemma found_at_in_range:
  "it \<le> lst \<Longrightarrow> lst \<le> length A \<Longrightarrow> found_at pred A it lst = Inr (it \<noteq> lst \<and> pred (A ! it))"
  by (auto simp: found_at_def deref_def)

lemma kd_lower_bound_base:
  "\<not> 1 < lst - first \<Longrightarrow>
   kd_lower_bound D I A first lst v =
     (case deref A first of
        Inl e \<Rightarrow> Inl e
      | Inr x \<Rightarrow> Inr (if none_less D x v then first else lst))"
  by (subst kd_lower_bound.simps) simp

lemma kd_lower_bound_rec:
  assumes "1 < lst - first" "lst \<le> length A"
    and "pivot = find_pivot I A first lst"
    and "L = kd_lower_bound D (next_dim I D) A first pivot v"
    and "R = kd_lower_bound D (next_dim I D) A (Suc pivot) lst v"
  shows "kd_lower_bound D I A first lst v =
     (if none_less D (A ! pivot) v then L
      else if all_less D (A ! pivot) v then R
      else (case L of
              Inl e \<Rightarrow> Inl e
            | Inr it \<Rightarrow>
                (case found_at (\<lambda>x. none_less D x v) A it lst of
                   Inl e \<Rightarrow> Inl e
                 | Inr True \<Rightarrow> Inr it
                 | Inr False \<Rightarrow>
                     (case R of
                        Inl e \<Rightarrow> Inl e
                      | Inr it' \<Rightarrow>
                          (case found_at (\<lambda>x. none_less D x v) A it' lst of
                             Inl e \<Rightarrow> Inl e
                           | Inr True \<Rightarrow> Inr it'
                           | Inr False \<Rightarrow> Inr lst)))))"
proof -
  have "pivot < lst" using find_pivot_bounds(2) [OF assms(1)] by (simp add: assms(3))
  then have "deref A pivot = Inr (A ! pivot)" using assms(2) by (simp add: deref_def)
  then show ?thesis
    unfolding assms(4,5) using assms(1)
    by (subst kd_lower_bound.simps) (simp add: Let_def assms(3) [symmetric])
qed

lemma kd_lower_bound_sound:
  "first \<le> lst \<Longrightarrow> lst \<le> length A \<Longrightarrow> kd_lower_bound D I A first lst v = Inr it \<Longrightarrow>
   first \<le> it \<and> it \<le> lst \<and> (it < lst \<longrightarrow> none_less D (A ! it) v)"
proof (induction "lst - first" arbitrary: first lst I it rule: less_induct)
  case less
  show ?case
  proof (cases "1 < lst - first")
    case False
    with less.prems show ?thesis
      by (auto simp: kd_lower_bound_base deref_def split: if_splits)
  next
    case True
    define pivot where "pivot = find_pivot I A first lst"
    define L where "L = kd_lower_bound D (next_dim I D) A first pivot v"
    define R where "R = kd_lower_bound D (next_dim I D) A (Suc pivot) lst v"
    have pb: "first \<le> pivot" "pivot < lst"
      using find_pivot_bounds [OF True] by (simp_all add: pivot_def)
    have ihL: "first \<le> i \<and> i \<le> pivot \<and> (i < pivot \<longrightarrow> none_less D (A ! i) v)" if "L = Inr i" for i
      using less.hyps [of pivot first "next_dim I D" i] pb less.prems(2) that by (simp add: L_def)
    have ihR: "Suc pivot \<le> i \<and> i \<le> lst \<and> (i < lst \<longrightarrow> none_less D (A ! i) v)" if "R = Inr i" for i
      using less.hyps [of lst "Suc pivot" "next_dim I D" i] pb less.prems(2) that by (simp add: R_def)
    note rec = kd_lower_bound_rec [OF True less.prems(2) pivot_def L_def R_def]
    show ?thesis
    proof (cases "none_less D (A ! pivot) v")
      case True
      with rec less.prems(3) have "L = Inr it" by simp
      from ihL [OF this] True pb show ?thesis
        by (cases "it = pivot") auto
    next
      case nl: False
      show ?thesis
      proof (cases "all_less D (A ! pivot) v")
        case True
        with rec nl less.prems(3) have "R = Inr it" by simp
        from ihR [OF this] pb show ?thesis by auto
      next
        case al: False
        show ?thesis
        proof (cases L)
          case (Inl e)
          with rec nl al less.prems(3) show ?thesis by simp
        next
          case (Inr i)
          note l = ihL [OF Inr]
          have fl: "found_at (\<lambda>x. none_less D x v) A i lst = Inr (none_less D (A ! i) v)"
            using found_at_in_range [of i lst A] l pb less.prems(2) by auto
          show ?thesis
          proof (cases "none_less D (A ! i) v")
            case True
            with rec nl al Inr fl less.prems(3) have "it = i" by simp
            with l pb True show ?thesis by auto
          next
            case False
            show ?thesis
            proof (cases R)
              case (Inl e)
              with rec nl al Inr fl False less.prems(3) show ?thesis by simp
            next
              case r: (Inr i')
              note rr = ihR [OF r]
              have fr: "found_at (\<lambda>x. none_less D x v) A i' lst = Inr (i' \<noteq> lst \<and> none_less D (A ! i') v)"
                using found_at_in_range [of i' lst A] rr less.prems(2) by auto
              show ?thesis
              proof (cases "i' \<noteq> lst \<and> none_less D (A ! i') v")
                case True
                with rec nl al Inr fl False r fr less.prems(3) have "it = i'" by simp
                with rr pb True show ?thesis by auto
              next
                case f2: False
                with rec nl al Inr fl False r fr less.prems(3) have "it = lst" by auto
                with less.prems(1) show ?thesis by simp
              qed
            qed
          qed
        qed
      qed
    qed
  qed
qed

lemma kd_lower_bound_no_error:
  "first \<le> lst \<Longrightarrow> lst < length A \<Longrightarrow> \<exists>it. kd_lower_bound D I A first lst v = Inr it"
proof (induction "lst - first" arbitrary: first lst I rule: less_induct)
  case less
  show ?case
  proof (cases "1 < lst - first")
    case False
    with less.prems show ?thesis
      by (auto simp: kd_lower_bound_base deref_def)
  next
    case True
    define pivot where "pivot = find_pivot I A first lst"
    define L where "L = kd_lower_bound D (next_dim I D) A first pivot v"
    define R where "R = kd_lower_bound D (next_dim I D) A (Suc pivot) lst v"
    have pb: "first \<le> pivot" "pivot < lst"
      using find_pivot_bounds [OF True] by (simp_all add: pivot_def)
    have le: "lst \<le> length A" using less.prems(2) by simp
    have d: "pivot - first < lst - first" "lst - Suc pivot < lst - first" "pivot < length A"
      using pb less.prems(2) by linarith+
    obtain i where l: "L = Inr i"
      using less.hyps [OF d(1) pb(1) d(3), of "next_dim I D"] by (auto simp: L_def)
    obtain i' where r: "R = Inr i'"
      using less.hyps [OF d(2) _ less.prems(2), of "next_dim I D"] pb by (auto simp: R_def)
    have il: "i \<le> lst"
      using kd_lower_bound_sound [of first pivot A D "next_dim I D" v i] l pb le by (simp add: L_def)
    have ir: "i' \<le> lst"
      using kd_lower_bound_sound [of "Suc pivot" lst A D "next_dim I D" v i'] r pb le by (simp add: R_def)
    note rec = kd_lower_bound_rec [OF True le pivot_def L_def R_def]
    show ?thesis
      unfolding rec l r
      by (auto simp: found_at_in_range [OF il le] found_at_in_range [OF ir le] split: bool.splits)
  qed
qed


text \<open>
  On an array in which no element is componentwise at least a different later element,
  the lower bound of a probe that occurs in the range is a position of the probe.
\<close>

lemma none_less_refl: "0 < D \<Longrightarrow> none_less D v v"
  by (simp add: none_less_iff)

lemma all_less_dominates:
  assumes "0 < D" "all_less D a b"
  shows "none_less D b a \<and> b \<noteq> a"
proof -
  have "a ! 0 < b ! 0" using assms by (simp add: all_less_iff)
  then have "b \<noteq> a" by auto
  moreover have "none_less D b a"
    using assms by (simp add: all_less_iff none_less_iff less_imp_le)
  ultimately show ?thesis by simp
qed

lemma kd_lower_bound_complete:
  assumes ord: "sorted_wrt (\<lambda>a b. \<not> (none_less D a b \<and> a \<noteq> b)) A" and D: "0 < D"
  shows "first \<le> lst \<Longrightarrow> lst \<le> length A \<Longrightarrow> first \<le> j \<Longrightarrow> j < lst \<Longrightarrow> A ! j = v \<Longrightarrow>
         \<exists>it. kd_lower_bound D I A first lst v = Inr it \<and> first \<le> it \<and> it < lst \<and> A ! it = v"
proof (induction "lst - first" arbitrary: first lst I j rule: less_induct)
  case less
  have nodom: "A ! a = A ! b" if "a < b" "b < length A" "none_less D (A ! a) (A ! b)" for a b
    using ord that by (auto simp: sorted_wrt_iff_nth_less)
  show ?case
  proof (cases "1 < lst - first")
    case False
    with less.prems have "j = first" "first < length A" by simp_all
    with less.prems False D show ?thesis
      by (auto simp: kd_lower_bound_base deref_def none_less_refl)
  next
    case True
    define pivot where "pivot = find_pivot I A first lst"
    define L where "L = kd_lower_bound D (next_dim I D) A first pivot v"
    define R where "R = kd_lower_bound D (next_dim I D) A (Suc pivot) lst v"
    have pb: "first \<le> pivot" "pivot < lst"
      using find_pivot_bounds [OF True] by (simp_all add: pivot_def)
    have d: "pivot - first < lst - first" "lst - Suc pivot < lst - first" "pivot < length A"
        "pivot \<le> length A" "Suc pivot \<le> lst"
      using pb less.prems(2) by linarith+
    have ihL: "\<exists>it. L = Inr it \<and> first \<le> it \<and> it < pivot \<and> A ! it = v" if "j < pivot"
      using less.hyps [OF d(1) pb(1) d(4) less.prems(3) that less.prems(5), of "next_dim I D"]
      by (simp add: L_def)
    have ihR: "\<exists>it. R = Inr it \<and> Suc pivot \<le> it \<and> it < lst \<and> A ! it = v" if "pivot < j"
      using less.hyps [OF d(2) d(5) less.prems(2) _ less.prems(4) less.prems(5), of "next_dim I D"] that
      by (simp add: R_def)
    obtain i where l: "L = Inr i"
      using kd_lower_bound_no_error [OF pb(1) d(3), of D "next_dim I D" v] by (auto simp: L_def)
    have ls: "first \<le> i \<and> i \<le> pivot \<and> (i < pivot \<longrightarrow> none_less D (A ! i) v)"
      using kd_lower_bound_sound [OF pb(1) d(4), of D "next_dim I D" v i] l by (simp add: L_def)
    have jl: "j < length A" using less.prems(2,4) by simp
    note rec = kd_lower_bound_rec [OF True less.prems(2) pivot_def L_def R_def]
    show ?thesis
    proof (cases "none_less D (A ! pivot) v")
      case True
      have res: "kd_lower_bound D I A first lst v = Inr i" using rec True l by simp
      show ?thesis
      proof (cases "j < pivot")
        case True
        from ihL [OF this] l res pb show ?thesis by auto
      next
        case False
        have pv: "A ! pivot = v"
        proof (cases "j = pivot")
          case True
          then show ?thesis using less.prems(5) by simp
        next
          case ne: False
          with False have "pivot < j" by simp
          from nodom [OF this jl] True less.prems(5) show ?thesis by simp
        qed
        have "A ! i = v"
        proof (cases "i = pivot")
          case True
          with pv show ?thesis by simp
        next
          case ne: False
          with ls have "i < pivot" "none_less D (A ! i) (A ! pivot)" using pv by auto
          from nodom [OF this(1) d(3) this(2)] pv show ?thesis by simp
        qed
        with res ls pb show ?thesis by auto
      qed
    next
      case nl: False
      have jp: "j \<noteq> pivot"
        using nl less.prems(5) D by (auto simp: none_less_refl)
      show ?thesis
      proof (cases "all_less D (A ! pivot) v")
        case True
        have res: "kd_lower_bound D I A first lst v = R" using rec nl True by simp
        have "pivot < j"
        proof (rule ccontr)
          assume "\<not> pivot < j"
          with jp have "j < pivot" by simp
          moreover have "none_less D (A ! j) (A ! pivot) \<and> A ! j \<noteq> A ! pivot"
            using all_less_dominates [OF D True] less.prems(5) by simp
          ultimately show False using nodom [OF _ d(3)] by blast
        qed
        from ihR [OF this] res pb show ?thesis by auto
      next
        case al: False
        have fl: "found_at (\<lambda>x. none_less D x v) A i lst = Inr (none_less D (A ! i) v)"
          using found_at_in_range [of i lst A] ls pb less.prems(2) by auto
        show ?thesis
        proof (cases "none_less D (A ! i) v")
          case True
          have res: "kd_lower_bound D I A first lst v = Inr i"
            using rec nl al l fl True by simp
          have ip: "i < pivot" using ls nl True by (cases "i = pivot") auto
          have "A ! i = v"
          proof (cases "j < pivot")
            case True
            from ihL [OF this] l show ?thesis by auto
          next
            case False
            with jp have "i < j" using ip by simp
            from nodom [OF this jl] True less.prems(5) show ?thesis by simp
          qed
          with res ls ip pb show ?thesis by auto
        next
          case False
          have "pivot < j"
          proof (rule ccontr)
            assume "\<not> pivot < j"
            with jp have "j < pivot" by simp
            from ihL [OF this] l have "A ! i = v" by auto
            with False D show False by (simp add: none_less_refl)
          qed
          from ihR [OF this] obtain i' where r: "R = Inr i'" "Suc pivot \<le> i'" "i' < lst" "A ! i' = v"
            by blast
          have fr: "found_at (\<lambda>x. none_less D x v) A i' lst = Inr True"
            using found_at_in_range [of i' lst A "\<lambda>x. none_less D x v"] r less.prems(2) D
            by (simp add: none_less_refl)
          have "kd_lower_bound D I A first lst v = Inr i'"
            using rec nl al l fl False r(1) fr by simp
          with r pb show ?thesis by auto
        qed
      qed
    qed
  qed
qed










lemma none_less_antisym:
  assumes "0 < D" "length x = D" "length v = D" "none_less D v x" "none_less D x v"
  shows "x = v"
proof (rule nth_equalityI)
  show "length x = length v" using assms by simp
  fix i assume "i < length x"
  then have "i < D" using assms by simp
  then have "x ! i \<le> v ! i" "v ! i \<le> x ! i"
    using assms(1,4,5) by (simp_all add: none_less_iff)
  then show "x ! i = v ! i" by simp
qed

text \<open>
  C6.  For every array that \<open>kd_sort\<close> returns, of points of one arity \<open>D \<ge> 1\<close>, and
  every probe \<open>v\<close> of that arity, \<open>kd_binary_search(A, v)\<close> returns true if and only
  if some element \<open>x\<close> of the array satisfies \<open>none_less(v, x)\<close> and
  \<open>none_less(x, v)\<close>; and \<open>kd_binary_search\<close> is the test
  \<open>it = kd_lower_bound(A, v); it != last && none_less(v, *it)\<close>.  (When no element
  matches, the search returns false or ends at the read past the end of the array
  shown for C10; it never returns true.)
\<close>

theorem kd_binary_search_iff:
  assumes "0 < D" and "\<forall>q\<in>set xs. length q = D" and "length v = D" and "A = kd_sort D 0 xs"
  shows "(kd_binary_search D A v = Inr True \<longleftrightarrow> (\<exists>x\<in>set A. none_less D v x \<and> none_less D x v)) \<and>
         kd_binary_search D A v =
           (case kd_lower_bound D 0 A 0 (length A) v of
              Inl e \<Rightarrow> Inl e
            | Inr it \<Rightarrow>
                if it \<noteq> length A
                then (case deref A it of Inl e \<Rightarrow> Inl e | Inr x \<Rightarrow> Inr (none_less D v x))
                else Inr False)"
proof -
  have ord: "sorted_wrt (\<lambda>a b. \<not> (none_less D a b \<and> a \<noteq> b)) A"
    unfolding assms(4) using kd_sort_dominance [OF assms(1) assms(1) assms(2)] .
  have "mset A = mset xs" unfolding assms(4) by (rule mset_kd_sort)
  then have "set A = set xs" by (metis set_mset_mset)
  then have wf: "\<forall>q\<in>set A. length q = D" using assms(2) by simp
  have fwd: "\<exists>x\<in>set A. none_less D v x \<and> none_less D x v" if t: "kd_binary_search D A v = Inr True"
  proof -
    from t obtain it where lb: "kd_lower_bound D 0 A 0 (length A) v = Inr it"
        and f: "found_at (\<lambda>x. none_less D v x) A it (length A) = Inr True"
      by (auto simp: kd_binary_search_def split: sum.splits)
    have s: "it \<le> length A \<and> (it < length A \<longrightarrow> none_less D (A ! it) v)"
      using kd_lower_bound_sound [OF _ _ lb] by simp
    then have "it \<noteq> length A \<and> none_less D v (A ! it)"
      using f found_at_in_range [of it "length A" A "\<lambda>x. none_less D v x"] by simp
    with s have "A ! it \<in> set A" "none_less D v (A ! it)" "none_less D (A ! it) v" by simp_all
    then show ?thesis by blast
  qed
  have bwd: "kd_binary_search D A v = Inr True" if e: "\<exists>x\<in>set A. none_less D v x \<and> none_less D x v"
  proof -
    from e obtain x where x: "x \<in> set A" "none_less D v x" "none_less D x v" by blast
    have "x = v" using none_less_antisym [OF assms(1) _ assms(3) x(2,3)] wf x(1) by simp
    with x(1) obtain j where j: "j < length A" "A ! j = v" by (auto simp: in_set_conv_nth)
    obtain it where it: "kd_lower_bound D 0 A 0 (length A) v = Inr it" "it < length A" "A ! it = v"
      using kd_lower_bound_complete [OF ord assms(1) _ _ _ j(1) j(2), of 0 0] by auto
    have "found_at (\<lambda>x. none_less D v x) A it (length A) = Inr True"
      using found_at_in_range [of it "length A" A "\<lambda>x. none_less D v x"] it(2,3) assms(1)
      by (simp add: none_less_refl)
    with it(1) show ?thesis by (simp add: kd_binary_search_def)
  qed
  have "kd_binary_search D A v =
           (case kd_lower_bound D 0 A 0 (length A) v of
              Inl e \<Rightarrow> Inl e
            | Inr it \<Rightarrow>
                if it \<noteq> length A
                then (case deref A it of Inl e \<Rightarrow> Inl e | Inr x \<Rightarrow> Inr (none_less D v x))
                else Inr False)"
    by (simp add: kd_binary_search_def found_at_def split: sum.splits)
  with fwd bwd show ?thesis by blast
qed

theorem kd_binary_search_iff_witness:
  "kd_binary_search 2 (kd_sort 2 0 [[3, 1], [1, 4], [2, 2], [5, 5], [4, 3]]) [2, 2] = Inr True \<and>
   kd_binary_search 2 (kd_sort 2 0 [[3, 1], [1, 4], [2, 2], [5, 5], [4, 3]]) [2, 3] \<noteq> Inr True"
proof -
  let ?xs = "[[3, 1], [1, 4], [2, 2], [5, 5], [4, 3 :: real]]"
  have s: "kd_sort 2 0 ?xs = [[2, 2], [1, 4], [3, 1], [4, 3], [5, 5]]"
    by code_simp
  have d: "(0::nat) < 2" by simp
  have wf: "\<forall>q\<in>set ?xs. length q = 2" by simp
  have a: "\<exists>x\<in>set (kd_sort 2 0 ?xs). none_less 2 [2, 2] x \<and> none_less 2 x [2, 2]"
    unfolding s by (simp add: none_less_def none_less_from.simps)
  have b: "\<not> (\<exists>x\<in>set (kd_sort 2 0 ?xs). none_less 2 [2, 3] x \<and> none_less 2 x [2, 3])"
    unfolding s by (simp add: none_less_def none_less_from.simps)
  have "length [2, 2 :: real] = 2" by simp
  from kd_binary_search_iff [OF d wf this refl] a
  have 1: "kd_binary_search 2 (kd_sort 2 0 ?xs) [2, 2] = Inr True" by blast
  have "length [2, 3 :: real] = 2" by simp
  from kd_binary_search_iff [OF d wf this refl] b
  have 2: "kd_binary_search 2 (kd_sort 2 0 ?xs) [2, 3] \<noteq> Inr True" by blast
  from 1 2 show ?thesis by simp
qed






end
